theory Spec2Isabelle
  imports Main "HOL-Library.Signed_Division" "HOL-Library.Word"
begin

section \<open>The lazy segment tree of \<open>segment_tree.cc\<close>\<close>

text \<open>
  The class \<open>SegmentTree\<close> keeps two vectors, \<open>tree\<close> and \<open>lazy\<close>, and the size \<open>n\<close>
  of the array it was built from. Its member functions mutate the vectors in place; here
  every function takes the object and returns the new one.

  The element type of the source is \<open>int\<close>. The definitions of this section compute
  with mathematical integers: they are what the code computes in every execution without
  integer overflow, and the statements about them are about those executions (node
  positions, which start at \<open>ROOT_NODE\<close> and only ever double, are naturals). The same
  functions in the 32-bit arithmetic of the machine follow in a section of their own, for
  the statements that do not assume the absence of overflow.
  The midpoint \<open>start + (end - start) / 2\<close> uses the truncating division of C++,
  \<open>sdiv\<close>.

  Indexing a \<open>std::vector\<close> outside its bounds is undefined behaviour: the model makes
  it the result \<open>OutOfBounds\<close>, which every later step passes on. A recursion that
  does not return is the value \<open>None\<close>.
\<close>

subsection \<open>Results and vector accesses\<close>

datatype 'a result = Ok 'a | OutOfBounds

definition bindE :: "'a result \<Rightarrow> ('a \<Rightarrow> 'b result) \<Rightarrow> 'b result" where
  "bindE m f = (case m of OutOfBounds \<Rightarrow> OutOfBounds | Ok x \<Rightarrow> f x)"

definition bindR :: "'a result option \<Rightarrow> ('a \<Rightarrow> 'b result option) \<Rightarrow> 'b result option" where
  "bindR m f = Option.bind m (\<lambda>x. case x of OutOfBounds \<Rightarrow> Some OutOfBounds | Ok y \<Rightarrow> f y)"

record st =
  tree :: "int list"
  lazy :: "int list"
  size_n :: int

definition ROOT_NODE :: nat where
  "ROOT_NODE = 1"

text \<open>\<open>arr[i]\<close> on the constructor's argument; a negative \<open>int\<close> index converts to a
  huge \<open>size_t\<close> and is out of bounds.\<close>

definition arr_get :: "int list \<Rightarrow> int \<Rightarrow> int result" where
  "arr_get arr i = (if 0 \<le> i \<and> nat i < length arr then Ok (arr ! nat i) else OutOfBounds)"

text \<open>\<open>tree[i]\<close> and \<open>lazy[i]\<close> as values, \<open>tree[i] = v\<close>, \<open>lazy[i] = v\<close>,
  \<open>tree[i] += d\<close> and \<open>lazy[i] += d\<close>.\<close>

definition tree_get :: "st \<Rightarrow> nat \<Rightarrow> int result" where
  "tree_get s i = (if i < length (tree s) then Ok (tree s ! i) else OutOfBounds)"

definition lazy_get :: "st \<Rightarrow> nat \<Rightarrow> int result" where
  "lazy_get s i = (if i < length (lazy s) then Ok (lazy s ! i) else OutOfBounds)"

definition tree_set :: "st \<Rightarrow> nat \<Rightarrow> int \<Rightarrow> st result" where
  "tree_set s i v = (if i < length (tree s) then Ok (s\<lparr>tree := (tree s)[i := v]\<rparr>) else OutOfBounds)"

definition lazy_set :: "st \<Rightarrow> nat \<Rightarrow> int \<Rightarrow> st result" where
  "lazy_set s i v = (if i < length (lazy s) then Ok (s\<lparr>lazy := (lazy s)[i := v]\<rparr>) else OutOfBounds)"

definition tree_add :: "st \<Rightarrow> nat \<Rightarrow> int \<Rightarrow> st result" where
  "tree_add s i d = bindE (tree_get s i) (\<lambda>t. tree_set s i (t + d))"

definition lazy_add :: "st \<Rightarrow> nat \<Rightarrow> int \<Rightarrow> st result" where
  "lazy_add s i d = bindE (lazy_get s i) (\<lambda>z. lazy_set s i (z + d))"

definition midpoint :: "int \<Rightarrow> int \<Rightarrow> int" where
  "midpoint start end = start + (end - start) sdiv 2"

subsection \<open>\<open>push\<close>\<close>

definition push :: "st \<Rightarrow> nat \<Rightarrow> int \<Rightarrow> int \<Rightarrow> st result" where
  "push s node start end =
     bindE (lazy_get s node) (\<lambda>z.
       if z \<noteq> 0 then
         bindE (lazy_get s node) (\<lambda>z1.
         bindE (tree_add s node (z1 * (end - start + 1))) (\<lambda>s1.
         bindE (if start \<noteq> end then
                  bindE (lazy_get s1 node) (\<lambda>z2.
                  bindE (lazy_add s1 (2 * node) z2) (\<lambda>s2.
                  bindE (lazy_get s2 node) (\<lambda>z3.
                  lazy_add s2 (2 * node + 1) z3)))
                else Ok s1) (\<lambda>s3.
         lazy_set s3 node 0)))
       else Ok s)"

subsection \<open>The three recursions\<close>

lemma bindR_mono [partial_function_mono]:
  assumes "mono_option B" and "\<And>y. mono_option (\<lambda>f. C y f)"
  shows "mono_option (\<lambda>f. bindR (B f) (\<lambda>y. C y f))"
  unfolding bindR_def
proof (rule bind_mono [OF assms(1)])
  fix y
  show "mono_option (\<lambda>f. case y of OutOfBounds \<Rightarrow> Some OutOfBounds | Ok z \<Rightarrow> C z f)"
    by (cases y) (simp_all add: assms(2) option.const_mono)
qed

partial_function (option) build_recursive ::
  "int list \<Rightarrow> st \<Rightarrow> nat \<Rightarrow> int \<Rightarrow> int \<Rightarrow> st result option" where
  "build_recursive arr s node start end =
     (if start = end then
        Some (bindE (arr_get arr start) (\<lambda>v. tree_set s node v))
      else
        bindR (build_recursive arr s (2 * node) start (midpoint start end)) (\<lambda>s1.
        bindR (build_recursive arr s1 (2 * node + 1) (midpoint start end + 1) end) (\<lambda>s2.
        Some (bindE (tree_get s2 (2 * node)) (\<lambda>a.
              bindE (tree_get s2 (2 * node + 1)) (\<lambda>b.
              tree_set s2 node (a + b)))))))"

partial_function (option) update_recursive ::
  "st \<Rightarrow> nat \<Rightarrow> int \<Rightarrow> int \<Rightarrow> int \<Rightarrow> int \<Rightarrow> int \<Rightarrow> st result option" where
  "update_recursive s node start end l r val =
     bindR (Some (push s node start end)) (\<lambda>s0.
       if start > end \<or> start > r \<or> end < l then Some (Ok s0)
       else if l \<le> start \<and> end \<le> r then
         Some (bindE (tree_add s0 node (val * (end - start + 1))) (\<lambda>s1.
               if start \<noteq> end then
                 bindE (lazy_add s1 (2 * node) val) (\<lambda>s2.
                 lazy_add s2 (2 * node + 1) val)
               else Ok s1))
       else
         bindR (update_recursive s0 (2 * node) start (midpoint start end) l r val) (\<lambda>s1.
         bindR (update_recursive s1 (2 * node + 1) (midpoint start end + 1) end l r val) (\<lambda>s2.
         Some (bindE (tree_get s2 (2 * node)) (\<lambda>a.
               bindE (tree_get s2 (2 * node + 1)) (\<lambda>b.
               tree_set s2 node (a + b)))))))"

partial_function (option) query_recursive ::
  "st \<Rightarrow> nat \<Rightarrow> int \<Rightarrow> int \<Rightarrow> int \<Rightarrow> int \<Rightarrow> (int \<times> st) result option" where
  "query_recursive s node start end l r =
     (if start > end \<or> start > r \<or> end < l then Some (Ok (0, s))
      else
        bindR (Some (push s node start end)) (\<lambda>s0.
          if l \<le> start \<and> end \<le> r then Some (bindE (tree_get s0 node) (\<lambda>t. Ok (t, s0)))
          else
            bindR (query_recursive s0 (2 * node) start (midpoint start end) l r) (\<lambda>(p1, s1).
            bindR (query_recursive s1 (2 * node + 1) (midpoint start end + 1) end l r) (\<lambda>(p2, s2).
            Some (Ok (p1 + p2, s2))))))"

declare build_recursive.simps [code]
declare update_recursive.simps [code]
declare query_recursive.simps [code]

subsection \<open>The public interface\<close>

definition SegmentTree :: "int list \<Rightarrow> st result option" where
  "SegmentTree arr =
     (if int (length arr) = 0 then Some (Ok \<lparr>tree = [], lazy = [], size_n = 0\<rparr>)
      else build_recursive arr
             \<lparr>tree = replicate (4 * length arr) 0, lazy = replicate (4 * length arr) 0,
              size_n = int (length arr)\<rparr>
             ROOT_NODE 0 (int (length arr) - 1))"

definition updateRange :: "st \<Rightarrow> int \<Rightarrow> int \<Rightarrow> int \<Rightarrow> st result option" where
  "updateRange s l r val =
     (if size_n s = 0 \<or> l < 0 \<or> r \<ge> size_n s \<or> l > r then Some (Ok s)
      else update_recursive s ROOT_NODE 0 (size_n s - 1) l r val)"

definition queryRange :: "st \<Rightarrow> int \<Rightarrow> int \<Rightarrow> (int \<times> st) result option" where
  "queryRange s l r =
     (if size_n s = 0 \<or> l < 0 \<or> r \<ge> size_n s \<or> l > r then Some (Ok (0, s))
      else query_recursive s ROOT_NODE 0 (size_n s - 1) l r)"

section \<open>Specification\<close>

subsection \<open>The midpoint\<close>

lemma sdiv2_nonneg: "0 \<le> x \<Longrightarrow> (x::int) sdiv 2 = x div 2"
  by (simp add: signed_divide_int_def sgn_if)

lemma midpoint_le: "a \<le> b \<Longrightarrow> midpoint a b = a + (b - a) div 2"
  by (simp add: midpoint_def sdiv2_nonneg)

lemma midpoint_bounds: "a < b \<Longrightarrow> a \<le> midpoint a b \<and> midpoint a b < b"
  by (simp add: midpoint_le)

subsection \<open>The invariant of the implicit tree\<close>

text \<open>
  The positions of the subtree below position \<open>c\<close>: \<open>c\<close> itself, its children
  \<open>2 * c\<close> and \<open>2 * c + 1\<close>, and so on.
\<close>

definition sub :: "nat \<Rightarrow> nat set" where
  "sub c = {p. \<exists>k. p div 2 ^ k = c}"

text \<open>
  \<open>agg\<close> is what a node holds for its range once its own pending delta is counted:
  \<open>push\<close> adds \<open>lazy[node] * (end - start + 1)\<close> to \<open>tree[node]\<close>, so
  \<open>tree[node]\<close> alone does not contain it.

  \<open>subtree_ok s node a b\<close> is the invariant of the subtree at \<open>node\<close>, which covers
  \<open>[a, b]\<close>: every position of the subtree lies inside both vectors, and the aggregate
  of an inner node is the sum of what its two children hold.

  \<open>elem s node a b i\<close> is the value of index \<open>i\<close> as the subtree at \<open>node\<close>
  represents it: the leaf's aggregate plus the pending deltas on the path from \<open>node\<close>
  down to the leaf.
\<close>

definition agg :: "st \<Rightarrow> nat \<Rightarrow> int \<Rightarrow> int \<Rightarrow> int" where
  "agg s node a b = tree s ! node + lazy s ! node * (b - a + 1)"

function subtree_ok :: "st \<Rightarrow> nat \<Rightarrow> int \<Rightarrow> int \<Rightarrow> bool" where
  "subtree_ok s node a b =
     (node < length (tree s) \<and> node < length (lazy s) \<and>
      (if a < b then
         subtree_ok s (2 * node) a (midpoint a b) \<and>
         subtree_ok s (2 * node + 1) (midpoint a b + 1) b \<and>
         tree s ! node = agg s (2 * node) a (midpoint a b) + agg s (2 * node + 1) (midpoint a b + 1) b
       else True))"
  by pat_completeness auto

termination
  by (relation "measure (\<lambda>(s, node, a, b). nat (b - a))") (auto dest: midpoint_bounds)

function elem :: "st \<Rightarrow> nat \<Rightarrow> int \<Rightarrow> int \<Rightarrow> int \<Rightarrow> int" where
  "elem s node a b i =
     lazy s ! node +
     (if a < b then
        (if i \<le> midpoint a b then elem s (2 * node) a (midpoint a b) i
         else elem s (2 * node + 1) (midpoint a b + 1) b i)
      else tree s ! node)"
  by pat_completeness auto

termination
  by (relation "measure (\<lambda>(s, node, a, b, i). nat (b - a))") (auto dest: midpoint_bounds)

declare subtree_ok.simps [simp del]

declare elem.simps [simp del]

text \<open>
  \<open>keeps c s s'\<close>: the state \<open>s'\<close> differs from \<open>s\<close> at most at positions of
  the subtree below \<open>c\<close>.
\<close>

definition keeps :: "nat \<Rightarrow> st \<Rightarrow> st \<Rightarrow> bool" where
  "keeps c s s' \<longleftrightarrow>
     length (tree s') = length (tree s) \<and> length (lazy s') = length (lazy s) \<and>
     size_n s' = size_n s \<and>
     (\<forall>p. p \<notin> sub c \<longrightarrow> tree s' ! p = tree s ! p \<and> lazy s' ! p = lazy s ! p)"

text \<open>
  The two state changes the code performs on a node: adding a delta to the node's range
  (its own aggregate, and the pending slots of its children when it has any), and
  clearing the node's pending slot.
\<close>

definition add_delta :: "st \<Rightarrow> nat \<Rightarrow> int \<Rightarrow> int \<Rightarrow> int \<Rightarrow> st" where
  "add_delta s node a b z =
     s\<lparr>tree := (tree s)[node := tree s ! node + z * (b - a + 1)],
       lazy := (if a \<noteq> b
                then (lazy s)[2 * node := lazy s ! (2 * node) + z,
                              2 * node + 1 := lazy s ! (2 * node + 1) + z]
                else lazy s)\<rparr>"

definition clear_lazy :: "st \<Rightarrow> nat \<Rightarrow> st" where
  "clear_lazy s node = s\<lparr>lazy := (lazy s)[node := 0]\<rparr>"

subsection \<open>Sequences of calls and the mirror array\<close>

text \<open>
  A client calls \<open>updateRange\<close> and \<open>queryRange\<close> in some order on the object the
  constructor returned; \<open>after A ops\<close> is the object after the constructor on \<open>A\<close> and
  the calls \<open>ops\<close>.
\<close>

datatype op = UpdateRange int int int | QueryRange int int

fun run :: "st \<Rightarrow> op list \<Rightarrow> st result option" where
  "run s [] = Some (Ok s)"
| "run s (UpdateRange l r val # ops) = bindR (updateRange s l r val) (\<lambda>s'. run s' ops)"
| "run s (QueryRange l r # ops) = bindR (queryRange s l r) (\<lambda>(v, s'). run s' ops)"

definition after :: "int list \<Rightarrow> op list \<Rightarrow> st result option" where
  "after A ops = bindR (SegmentTree A) (\<lambda>s. run s ops)"

text \<open>
  The mirror array of the specification: it starts as \<open>A\<close>; an \<open>updateRange\<close> with a
  valid range adds \<open>delta\<close> to every index of the range, one with an invalid range
  changes nothing, and a query changes nothing. \<open>range_sum M l r\<close> is the sum of the
  mirror over the indices \<open>l..r\<close>.
\<close>

definition mirror_update :: "int list \<Rightarrow> int \<Rightarrow> int \<Rightarrow> int \<Rightarrow> int list" where
  "mirror_update M l r delta =
     (if 0 \<le> l \<and> l \<le> r \<and> r < int (length M)
      then map (\<lambda>i. M ! i + (if l \<le> int i \<and> int i \<le> r then delta else 0)) [0..<length M]
      else M)"

fun mirror :: "int list \<Rightarrow> op list \<Rightarrow> int list" where
  "mirror M [] = M"
| "mirror M (UpdateRange l r delta # ops) = mirror (mirror_update M l r delta) ops"
| "mirror M (QueryRange l r # ops) = mirror M ops"

definition range_sum :: "int list \<Rightarrow> int \<Rightarrow> int \<Rightarrow> int" where
  "range_sum M l r = (\<Sum>i\<leftarrow>[l..r]. M ! nat i)"

text \<open>
  The invariant of the whole object, and the array it represents.
\<close>

definition state_ok :: "st \<Rightarrow> bool" where
  "state_ok s \<longleftrightarrow> 0 \<le> size_n s \<and> (1 \<le> size_n s \<longrightarrow> subtree_ok s 1 0 (size_n s - 1))"

definition contents :: "st \<Rightarrow> int list" where
  "contents s = map (\<lambda>i. elem s 1 0 (size_n s - 1) (int i)) [0..<nat (size_n s)]"

subsection \<open>Nodes and calls\<close>

text \<open>
  The nodes of the tree over \<open>n\<close> elements, each with the range the traversals assign
  to it: the root \<open>ROOT_NODE\<close> covers \<open>[0, n - 1]\<close>, and a node that covers
  \<open>[start, end]\<close> with \<open>start \<noteq> end\<close> has the children \<open>2 * node\<close> on
  \<open>[start, mid]\<close> and \<open>2 * node + 1\<close> on \<open>[mid + 1, end]\<close>.
  \<open>anc_lazy s node\<close> is the sum of the pending deltas stored at the proper ancestors of
  \<open>node\<close>.
\<close>

inductive node_range :: "int \<Rightarrow> nat \<Rightarrow> int \<Rightarrow> int \<Rightarrow> bool" for n :: int where
  root: "1 \<le> n \<Longrightarrow> node_range n ROOT_NODE 0 (n - 1)"
| left: "node_range n node start end \<Longrightarrow> start \<noteq> end \<Longrightarrow>
         node_range n (2 * node) start (midpoint start end)"
| right: "node_range n node start end \<Longrightarrow> start \<noteq> end \<Longrightarrow>
          node_range n (2 * node + 1) (midpoint start end + 1) end"

code_pred node_range .

fun anc_lazy :: "st \<Rightarrow> nat \<Rightarrow> int" where
  "anc_lazy s node = (if node \<le> 1 then 0 else lazy s ! (node div 2) + anc_lazy s (node div 2))"

declare anc_lazy.simps [simp del]

text \<open>
  Which recursive calls \<open>update_recursive\<close> and \<open>query_recursive\<close> make depends on
  \<open>start\<close>, \<open>end\<close>, \<open>l\<close> and \<open>r\<close> only, never on the vectors.
  \<open>update_calls\<close> and \<open>query_calls\<close> list the arguments \<open>(node, start, end)\<close> of
  every call below a given one, in the order of the calls, following the three cases of
  the source; \<open>updateRange_calls\<close> and \<open>queryRange_calls\<close> are the calls made through
  the public functions on a tree over \<open>n\<close> elements.
\<close>

function update_calls :: "nat \<Rightarrow> int \<Rightarrow> int \<Rightarrow> int \<Rightarrow> int \<Rightarrow> (nat \<times> int \<times> int) list" where
  "update_calls node start end l r =
     (node, start, end) #
     (if start > end \<or> start > r \<or> end < l then []
      else if l \<le> start \<and> end \<le> r then []
      else update_calls (2 * node) start (midpoint start end) l r @
           update_calls (2 * node + 1) (midpoint start end + 1) end l r)"
  by pat_completeness auto

termination
proof (relation "measure (\<lambda>(node, start, end, l, r). nat (end - start))", goal_cases)
  case 1
  show ?case by simp
next
  case (2 node a b l r)
  then have "a < b" by linarith
  then show ?case using midpoint_bounds [of a b] by simp
next
  case (3 node a b l r)
  then have "a < b" by linarith
  then show ?case using midpoint_bounds [of a b] by simp
qed

function query_calls :: "nat \<Rightarrow> int \<Rightarrow> int \<Rightarrow> int \<Rightarrow> int \<Rightarrow> (nat \<times> int \<times> int) list" where
  "query_calls node start end l r =
     (node, start, end) #
     (if start > end \<or> start > r \<or> end < l then []
      else if l \<le> start \<and> end \<le> r then []
      else query_calls (2 * node) start (midpoint start end) l r @
           query_calls (2 * node + 1) (midpoint start end + 1) end l r)"
  by pat_completeness auto

termination
proof (relation "measure (\<lambda>(node, start, end, l, r). nat (end - start))", goal_cases)
  case 1
  show ?case by simp
next
  case (2 node a b l r)
  then have "a < b" by linarith
  then show ?case using midpoint_bounds [of a b] by simp
next
  case (3 node a b l r)
  then have "a < b" by linarith
  then show ?case using midpoint_bounds [of a b] by simp
qed

declare update_calls.simps [simp del]

declare query_calls.simps [simp del]

definition updateRange_calls :: "int \<Rightarrow> int \<Rightarrow> int \<Rightarrow> (nat \<times> int \<times> int) list" where
  "updateRange_calls n l r =
     (if n = 0 \<or> l < 0 \<or> r \<ge> n \<or> l > r then [] else update_calls ROOT_NODE 0 (n - 1) l r)"

definition queryRange_calls :: "int \<Rightarrow> int \<Rightarrow> int \<Rightarrow> (nat \<times> int \<times> int) list" where
  "queryRange_calls n l r =
     (if n = 0 \<or> l < 0 \<or> r \<ge> n \<or> l > r then [] else query_calls ROOT_NODE 0 (n - 1) l r)"

section \<open>The program in 32-bit arithmetic\<close>

text \<open>
  The \<open>int\<close> of the source has 32 bits. The definitions above compute with unbounded
  integers, which is what the code computes as long as nothing overflows. The definitions
  of this section are the same functions with the arithmetic of the machine: the elements
  of the vectors, the deltas and the results of the queries are 32-bit words, on which
  \<open>+\<close> and \<open>*\<close> wrap around and \<open>sint\<close> reads the signed value (an overflow of
  \<open>int\<close>, which C++ leaves undefined, is taken as the wrap-around of the two's
  complement machine); the constructor
  computes \<open>n = arr.size()\<close> and \<open>4 * n\<close> in \<open>int\<close>, so both wrap around as well
  (\<open>to_int32\<close>). \<open>resize\<close> with a negative \<open>int\<close> asks for more than
  \<open>max_size()\<close> elements and throws \<open>std::length_error\<close>, the result
  \<open>LengthError32\<close>. The bounds \<open>start\<close>, \<open>end\<close>, \<open>l\<close>, \<open>r\<close> and the node
  positions stay as above: between \<open>0\<close> and \<open>n - 1\<close>, and below \<open>4 * n\<close>, their
  arithmetic does not overflow.
\<close>

type_synonym int32 = "32 word"

datatype 'a result32 = Ok32 'a | OutOfBounds32 | LengthError32

definition bindE32 :: "'a result32 \<Rightarrow> ('a \<Rightarrow> 'b result32) \<Rightarrow> 'b result32" where
  "bindE32 m f = (case m of Ok32 x \<Rightarrow> f x | OutOfBounds32 \<Rightarrow> OutOfBounds32
                  | LengthError32 \<Rightarrow> LengthError32)"

definition bindR32 ::
  "'a result32 option \<Rightarrow> ('a \<Rightarrow> 'b result32 option) \<Rightarrow> 'b result32 option" where
  "bindR32 m f = Option.bind m (\<lambda>x. case x of Ok32 y \<Rightarrow> f y | OutOfBounds32 \<Rightarrow> Some OutOfBounds32
                                  | LengthError32 \<Rightarrow> Some LengthError32)"

record st32 =
  tree32 :: "int32 list"
  lazy32 :: "int32 list"
  size_n32 :: int

definition to_int32 :: "int \<Rightarrow> int" where
  "to_int32 x = sint (word_of_int x :: int32)"

definition arr_get32 :: "int32 list \<Rightarrow> int \<Rightarrow> int32 result32" where
  "arr_get32 arr i = (if 0 \<le> i \<and> nat i < length arr then Ok32 (arr ! nat i) else OutOfBounds32)"

definition tree_get32 :: "st32 \<Rightarrow> nat \<Rightarrow> int32 result32" where
  "tree_get32 s i = (if i < length (tree32 s) then Ok32 (tree32 s ! i) else OutOfBounds32)"

definition lazy_get32 :: "st32 \<Rightarrow> nat \<Rightarrow> int32 result32" where
  "lazy_get32 s i = (if i < length (lazy32 s) then Ok32 (lazy32 s ! i) else OutOfBounds32)"

definition tree_set32 :: "st32 \<Rightarrow> nat \<Rightarrow> int32 \<Rightarrow> st32 result32" where
  "tree_set32 s i v =
     (if i < length (tree32 s) then Ok32 (s\<lparr>tree32 := (tree32 s)[i := v]\<rparr>) else OutOfBounds32)"

definition lazy_set32 :: "st32 \<Rightarrow> nat \<Rightarrow> int32 \<Rightarrow> st32 result32" where
  "lazy_set32 s i v =
     (if i < length (lazy32 s) then Ok32 (s\<lparr>lazy32 := (lazy32 s)[i := v]\<rparr>) else OutOfBounds32)"

definition tree_add32 :: "st32 \<Rightarrow> nat \<Rightarrow> int32 \<Rightarrow> st32 result32" where
  "tree_add32 s i d = bindE32 (tree_get32 s i) (\<lambda>t. tree_set32 s i (t + d))"

definition lazy_add32 :: "st32 \<Rightarrow> nat \<Rightarrow> int32 \<Rightarrow> st32 result32" where
  "lazy_add32 s i d = bindE32 (lazy_get32 s i) (\<lambda>z. lazy_set32 s i (z + d))"

definition push32 :: "st32 \<Rightarrow> nat \<Rightarrow> int \<Rightarrow> int \<Rightarrow> st32 result32" where
  "push32 s node start end =
     bindE32 (lazy_get32 s node) (\<lambda>z.
       if z \<noteq> 0 then
         bindE32 (lazy_get32 s node) (\<lambda>z1.
         bindE32 (tree_add32 s node (z1 * word_of_int (end - start + 1))) (\<lambda>s1.
         bindE32 (if start \<noteq> end then
                    bindE32 (lazy_get32 s1 node) (\<lambda>z2.
                    bindE32 (lazy_add32 s1 (2 * node) z2) (\<lambda>s2.
                    bindE32 (lazy_get32 s2 node) (\<lambda>z3.
                    lazy_add32 s2 (2 * node + 1) z3)))
                  else Ok32 s1) (\<lambda>s3.
         lazy_set32 s3 node 0)))
       else Ok32 s)"

lemma bindR32_mono [partial_function_mono]:
  assumes "mono_option B" and "\<And>y. mono_option (\<lambda>f. C y f)"
  shows "mono_option (\<lambda>f. bindR32 (B f) (\<lambda>y. C y f))"
  unfolding bindR32_def
proof (rule bind_mono [OF assms(1)])
  fix y
  show "mono_option (\<lambda>f. case y of Ok32 z \<Rightarrow> C z f | OutOfBounds32 \<Rightarrow> Some OutOfBounds32
                           | LengthError32 \<Rightarrow> Some LengthError32)"
    by (cases y) (simp_all add: assms(2) option.const_mono)
qed

partial_function (option) build_recursive32 ::
  "int32 list \<Rightarrow> st32 \<Rightarrow> nat \<Rightarrow> int \<Rightarrow> int \<Rightarrow> st32 result32 option" where
  "build_recursive32 arr s node start end =
     (if start = end then
        Some (bindE32 (arr_get32 arr start) (\<lambda>v. tree_set32 s node v))
      else
        bindR32 (build_recursive32 arr s (2 * node) start (midpoint start end)) (\<lambda>s1.
        bindR32 (build_recursive32 arr s1 (2 * node + 1) (midpoint start end + 1) end) (\<lambda>s2.
        Some (bindE32 (tree_get32 s2 (2 * node)) (\<lambda>a.
              bindE32 (tree_get32 s2 (2 * node + 1)) (\<lambda>b.
              tree_set32 s2 node (a + b)))))))"

partial_function (option) update_recursive32 ::
  "st32 \<Rightarrow> nat \<Rightarrow> int \<Rightarrow> int \<Rightarrow> int \<Rightarrow> int \<Rightarrow> int32 \<Rightarrow> st32 result32 option" where
  "update_recursive32 s node start end l r val =
     bindR32 (Some (push32 s node start end)) (\<lambda>s0.
       if start > end \<or> start > r \<or> end < l then Some (Ok32 s0)
       else if l \<le> start \<and> end \<le> r then
         Some (bindE32 (tree_add32 s0 node (val * word_of_int (end - start + 1))) (\<lambda>s1.
               if start \<noteq> end then
                 bindE32 (lazy_add32 s1 (2 * node) val) (\<lambda>s2.
                 lazy_add32 s2 (2 * node + 1) val)
               else Ok32 s1))
       else
         bindR32 (update_recursive32 s0 (2 * node) start (midpoint start end) l r val) (\<lambda>s1.
         bindR32 (update_recursive32 s1 (2 * node + 1) (midpoint start end + 1) end l r val) (\<lambda>s2.
         Some (bindE32 (tree_get32 s2 (2 * node)) (\<lambda>a.
               bindE32 (tree_get32 s2 (2 * node + 1)) (\<lambda>b.
               tree_set32 s2 node (a + b)))))))"

partial_function (option) query_recursive32 ::
  "st32 \<Rightarrow> nat \<Rightarrow> int \<Rightarrow> int \<Rightarrow> int \<Rightarrow> int \<Rightarrow> (int32 \<times> st32) result32 option" where
  "query_recursive32 s node start end l r =
     (if start > end \<or> start > r \<or> end < l then Some (Ok32 (0, s))
      else
        bindR32 (Some (push32 s node start end)) (\<lambda>s0.
          if l \<le> start \<and> end \<le> r then Some (bindE32 (tree_get32 s0 node) (\<lambda>t. Ok32 (t, s0)))
          else
            bindR32 (query_recursive32 s0 (2 * node) start (midpoint start end) l r) (\<lambda>(p1, s1).
            bindR32 (query_recursive32 s1 (2 * node + 1) (midpoint start end + 1) end l r) (\<lambda>(p2, s2).
            Some (Ok32 (p1 + p2, s2))))))"

declare build_recursive32.simps [code]

declare update_recursive32.simps [code]

declare query_recursive32.simps [code]

definition SegmentTree32 :: "int32 list \<Rightarrow> st32 result32 option" where
  "SegmentTree32 arr =
     (let n = to_int32 (int (length arr)) in
      if n = 0 then Some (Ok32 \<lparr>tree32 = [], lazy32 = [], size_n32 = n\<rparr>)
      else if to_int32 (4 * n) < 0 then Some LengthError32
      else build_recursive32 arr
             \<lparr>tree32 = replicate (nat (to_int32 (4 * n))) 0,
              lazy32 = replicate (nat (to_int32 (4 * n))) 0, size_n32 = n\<rparr>
             ROOT_NODE 0 (to_int32 (n - 1)))"

definition updateRange32 :: "st32 \<Rightarrow> int \<Rightarrow> int \<Rightarrow> int32 \<Rightarrow> st32 result32 option" where
  "updateRange32 s l r val =
     (if size_n32 s = 0 \<or> l < 0 \<or> r \<ge> size_n32 s \<or> l > r then Some (Ok32 s)
      else update_recursive32 s ROOT_NODE 0 (size_n32 s - 1) l r val)"

definition queryRange32 :: "st32 \<Rightarrow> int \<Rightarrow> int \<Rightarrow> (int32 \<times> st32) result32 option" where
  "queryRange32 s l r =
     (if size_n32 s = 0 \<or> l < 0 \<or> r \<ge> size_n32 s \<or> l > r then Some (Ok32 (0, s))
      else query_recursive32 s ROOT_NODE 0 (size_n32 s - 1) l r)"

datatype op32 = UpdateRange32 int int int32 | QueryRange32 int int

fun run32 :: "st32 \<Rightarrow> op32 list \<Rightarrow> st32 result32 option" where
  "run32 s [] = Some (Ok32 s)"
| "run32 s (UpdateRange32 l r val # ops) = bindR32 (updateRange32 s l r val) (\<lambda>s'. run32 s' ops)"
| "run32 s (QueryRange32 l r # ops) = bindR32 (queryRange32 s l r) (\<lambda>(v, s'). run32 s' ops)"

definition after32 :: "int32 list \<Rightarrow> op32 list \<Rightarrow> st32 result32 option" where
  "after32 A ops = bindR32 (SegmentTree32 A) (\<lambda>s. run32 s ops)"

text \<open>
  The mirror array and the pending deltas of the ancestors, in the arithmetic of the
  machine.
\<close>

definition mirror_update32 :: "int32 list \<Rightarrow> int \<Rightarrow> int \<Rightarrow> int32 \<Rightarrow> int32 list" where
  "mirror_update32 M l r delta =
     (if 0 \<le> l \<and> l \<le> r \<and> r < int (length M)
      then map (\<lambda>i. M ! i + (if l \<le> int i \<and> int i \<le> r then delta else 0)) [0..<length M]
      else M)"

fun mirror32 :: "int32 list \<Rightarrow> op32 list \<Rightarrow> int32 list" where
  "mirror32 M [] = M"
| "mirror32 M (UpdateRange32 l r delta # ops) = mirror32 (mirror_update32 M l r delta) ops"
| "mirror32 M (QueryRange32 l r # ops) = mirror32 M ops"

definition range_sum32 :: "int32 list \<Rightarrow> int \<Rightarrow> int \<Rightarrow> int32" where
  "range_sum32 M l r = (\<Sum>i\<leftarrow>[l..r]. M ! nat i)"

fun anc_lazy32 :: "st32 \<Rightarrow> nat \<Rightarrow> int32" where
  "anc_lazy32 s node = (if node \<le> 1 then 0 else lazy32 s ! (node div 2) + anc_lazy32 s (node div 2))"

declare anc_lazy32.simps [simp del]

text \<open>
  The state of the machine that corresponds to a state over the integers has every element
  reduced modulo \<open>2 ^ 32\<close>; an operation of the machine corresponds to the operation with
  the signed value of its delta.
\<close>

definition img :: "st \<Rightarrow> st32" where
  "img s = \<lparr>tree32 = map word_of_int (tree s), lazy32 = map word_of_int (lazy s), size_n32 = size_n s\<rparr>"

fun imgR :: "st result \<Rightarrow> st32 result32" where
  "imgR (Ok s) = Ok32 (img s)"
| "imgR OutOfBounds = OutOfBounds32"

fun op_of32 :: "op32 \<Rightarrow> op" where
  "op_of32 (UpdateRange32 l r val) = UpdateRange l r (sint val)"
| "op_of32 (QueryRange32 l r) = QueryRange l r"

section \<open>Verification\<close>

subsection \<open>Positions of a subtree\<close>

lemma sub_self: "c \<in> sub c"
  unfolding sub_def by (auto intro: exI [of _ 0])

lemma sub_left: "p \<in> sub (2 * c) \<Longrightarrow> p \<in> sub c"
proof -
  assume "p \<in> sub (2 * c)"
  then obtain k where "p div 2 ^ k = 2 * c" by (auto simp: sub_def)
  then have "p div 2 ^ Suc k = c" by (simp only: power_Suc2 div_mult2_eq)
  then show ?thesis unfolding sub_def by blast
qed

lemma sub_right: "p \<in> sub (2 * c + 1) \<Longrightarrow> p \<in> sub c"
proof -
  assume "p \<in> sub (2 * c + 1)"
  then obtain k where "p div 2 ^ k = 2 * c + 1" by (auto simp: sub_def)
  then have "p div 2 ^ Suc k = c" by (simp only: power_Suc2 div_mult2_eq)
  then show ?thesis unfolding sub_def by blast
qed

lemma sub_ge: "p \<in> sub c \<Longrightarrow> c \<le> p"
  by (auto simp: sub_def)

lemma sub_not_left: "1 \<le> c \<Longrightarrow> c \<notin> sub (2 * c)"
  using sub_ge [of c "2 * c"] by auto

lemma sub_not_right: "c \<notin> sub (2 * c + 1)"
  using sub_ge [of c "2 * c + 1"] by auto

lemma sub_disjoint:
  assumes "1 \<le> c" "p \<in> sub (2 * c)" shows "p \<notin> sub (2 * c + 1)"
proof
  assume "p \<in> sub (2 * c + 1)"
  then obtain j where j: "p div 2 ^ j = 2 * c + 1" by (auto simp: sub_def)
  from assms obtain k where k: "p div 2 ^ k = 2 * c" by (auto simp: sub_def)
  show False
  proof (cases "k \<le> j")
    case True
    then obtain d where d: "j = k + d" using le_Suc_ex by blast
    have "p div 2 ^ j = (p div 2 ^ k) div 2 ^ d"
      unfolding d by (simp only: power_add div_mult2_eq)
    with j k have "2 * c div 2 ^ d = 2 * c + 1" by simp
    moreover have "2 * c div 2 ^ d \<le> 2 * c" by (rule div_le_dividend)
    ultimately show False by simp
  next
    case False
    then obtain d where d: "k = j + Suc d" by (metis add_Suc_right less_iff_Suc_add not_le)
    have "p div 2 ^ k = (p div 2 ^ j) div 2 ^ Suc d"
      unfolding d by (simp only: power_add div_mult2_eq)
    with j k have "(2 * c + 1) div 2 ^ Suc d = 2 * c" by simp
    moreover have "(2 * c + 1) div 2 ^ Suc d = c div 2 ^ d"
      by (simp add: div_mult2_eq)
    moreover have "c div 2 ^ d \<le> c" by (rule div_le_dividend)
    ultimately show False using assms(1) by simp
  qed
qed

subsection \<open>What a subtree holds\<close>

text \<open>Under the invariant, a node holds the sum of the values of its range.\<close>

lemma agg_sum:
  "a \<le> b \<Longrightarrow> subtree_ok s node a b \<Longrightarrow> agg s node a b = (\<Sum>i\<in>{a..b}. elem s node a b i)"
proof (induction s node a b rule: subtree_ok.induct)
  case (1 s node a b)
  show ?case
  proof (cases "a < b")
    case False
    with "1.prems" have "a = b" by simp
    then show ?thesis by (simp add: agg_def elem.simps [of s node b b])
  next
    case True
    define m where "m = midpoint a b"
    have mb: "a \<le> m" "m < b" using midpoint_bounds [OF True] by (simp_all add: m_def)
    from "1.prems"(2) True have ok: "subtree_ok s (2 * node) a m" "subtree_ok s (2 * node + 1) (m + 1) b"
      and t: "tree s ! node = agg s (2 * node) a m + agg s (2 * node + 1) (m + 1) b"
      by (simp_all add: subtree_ok.simps [of s node a b] m_def)
    have L: "agg s (2 * node) a m = (\<Sum>i\<in>{a..m}. elem s (2 * node) a m i)"
      using "1.IH"(1) [OF True] mb ok by (simp add: m_def)
    have R: "agg s (2 * node + 1) (m + 1) b = (\<Sum>i\<in>{m + 1..b}. elem s (2 * node + 1) (m + 1) b i)"
      using "1.IH"(2) [OF True] mb ok by (simp add: m_def)
    have split: "{a..b} = {a..m} \<union> {m + 1..b}" "{a..m} \<inter> {m + 1..b} = {}"
      using mb by auto
    have S1: "(\<Sum>i\<in>{a..m}. elem s node a b i) = lazy s ! node * (m - a + 1) + agg s (2 * node) a m"
    proof -
      have "(\<Sum>i\<in>{a..m}. elem s node a b i) = (\<Sum>i\<in>{a..m}. lazy s ! node + elem s (2 * node) a m i)"
        by (rule sum.cong) (use True in \<open>simp_all add: elem.simps [of s node a b] m_def\<close>)
      then show ?thesis using mb L by (simp add: sum.distrib)
    qed
    have S2: "(\<Sum>i\<in>{m + 1..b}. elem s node a b i) =
              lazy s ! node * (b - m) + agg s (2 * node + 1) (m + 1) b"
    proof -
      have "(\<Sum>i\<in>{m + 1..b}. elem s node a b i) =
            (\<Sum>i\<in>{m + 1..b}. lazy s ! node + elem s (2 * node + 1) (m + 1) b i)"
        by (rule sum.cong) (use True in \<open>simp_all add: elem.simps [of s node a b] m_def\<close>)
      then show ?thesis using mb R by (simp add: sum.distrib)
    qed
    have "(\<Sum>i\<in>{a..b}. elem s node a b i) =
          (\<Sum>i\<in>{a..m}. elem s node a b i) + (\<Sum>i\<in>{m + 1..b}. elem s node a b i)"
      unfolding split(1) by (rule sum.union_disjoint) (simp_all add: split(2))
    also have "\<dots> = lazy s ! node * (b - a + 1) + tree s ! node"
      unfolding S1 S2 t by (simp add: algebra_simps)
    finally show ?thesis by (simp add: agg_def [of s node])
  qed
qed

subsection \<open>Changes outside a subtree\<close>

lemma keeps_refl: "keeps c s s"
  by (simp add: keeps_def)

lemma keeps_trans: "keeps c s s' \<Longrightarrow> keeps c s' s'' \<Longrightarrow> keeps c s s''"
  by (simp add: keeps_def)

lemma keeps_left: "keeps (2 * c) s s' \<Longrightarrow> keeps c s s'"
  unfolding keeps_def using sub_left by blast

lemma keeps_right: "keeps (2 * c + 1) s s' \<Longrightarrow> keeps c s s'"
  unfolding keeps_def using sub_right by blast

text \<open>
  The invariant of a subtree reads the aggregates of its positions and the pending slots
  below its root; the values it represents move with the pending slot of its root.
\<close>

lemma shift:
  assumes "length (tree s') = length (tree s)" "length (lazy s') = length (lazy s)"
    and "\<forall>p\<in>sub c. tree s' ! p = tree s ! p"
    and "\<forall>p\<in>sub c. p \<noteq> c \<longrightarrow> lazy s' ! p = lazy s ! p"
    and "1 \<le> c"
  shows "subtree_ok s' c a b = subtree_ok s c a b \<and>
         elem s' c a b i = elem s c a b i + (lazy s' ! c - lazy s ! c)"
  using assms
proof (induction s c a b rule: subtree_ok.induct)
  case (1 s c a b)
  have tc: "tree s' ! c = tree s ! c" using "1.prems"(3) sub_self by blast
  show ?case
  proof (cases "a < b")
    case False
    then show ?thesis
      by (simp add: subtree_ok.simps [of _ c a b] elem.simps [of _ c a b] "1.prems"(1,2) tc)
  next
    case True
    define m where "m = midpoint a b"
    have c1: "c \<notin> sub (2 * c)" "c \<notin> sub (2 * c + 1)"
      using sub_not_left [OF "1.prems"(5)] sub_not_right by auto
    have L3: "\<forall>p\<in>sub (2 * c). tree s' ! p = tree s ! p"
      using "1.prems"(3) sub_left by blast
    have L4: "\<forall>p\<in>sub (2 * c). p \<noteq> 2 * c \<longrightarrow> lazy s' ! p = lazy s ! p"
    proof (intro ballI impI)
      fix p assume p: "p \<in> sub (2 * c)"
      then have "p \<in> sub c" by (rule sub_left)
      moreover from p c1(1) have "p \<noteq> c" by auto
      ultimately show "lazy s' ! p = lazy s ! p" using "1.prems"(4) by blast
    qed
    have L: "subtree_ok s' (2 * c) a m = subtree_ok s (2 * c) a m \<and>
             elem s' (2 * c) a m i = elem s (2 * c) a m i + (lazy s' ! (2 * c) - lazy s ! (2 * c))"
      unfolding m_def
      by (rule "1.IH"(1) [OF True "1.prems"(1,2) L3 L4]) (use "1.prems"(5) in simp)
    have R3: "\<forall>p\<in>sub (2 * c + 1). tree s' ! p = tree s ! p"
      using "1.prems"(3) sub_right by blast
    have R4: "\<forall>p\<in>sub (2 * c + 1). p \<noteq> 2 * c + 1 \<longrightarrow> lazy s' ! p = lazy s ! p"
    proof (intro ballI impI)
      fix p assume p: "p \<in> sub (2 * c + 1)"
      then have "p \<in> sub c" by (rule sub_right)
      moreover from p c1(2) have "p \<noteq> c" by auto
      ultimately show "lazy s' ! p = lazy s ! p" using "1.prems"(4) by blast
    qed
    have R: "subtree_ok s' (2 * c + 1) (m + 1) b = subtree_ok s (2 * c + 1) (m + 1) b \<and>
             elem s' (2 * c + 1) (m + 1) b i =
             elem s (2 * c + 1) (m + 1) b i + (lazy s' ! (2 * c + 1) - lazy s ! (2 * c + 1))"
      unfolding m_def
      by (rule "1.IH"(2) [OF True "1.prems"(1,2) R3 R4]) simp
    have in1: "2 * c \<in> sub c" "2 * c + 1 \<in> sub c"
      using sub_left [OF sub_self] sub_right [OF sub_self] by auto
    have ne: "2 * c \<noteq> c" "2 * c + 1 \<noteq> c" using "1.prems"(5) by auto
    have lz: "lazy s' ! (2 * c) = lazy s ! (2 * c)" "lazy s' ! (2 * c + 1) = lazy s ! (2 * c + 1)"
      using "1.prems"(4) in1 ne by blast+
    have tz: "tree s' ! (2 * c) = tree s ! (2 * c)" "tree s' ! (2 * c + 1) = tree s ! (2 * c + 1)"
      using "1.prems"(3) in1 by blast+
    have ag: "agg s' (2 * c) a m = agg s (2 * c) a m"
      "agg s' (2 * c + 1) (m + 1) b = agg s (2 * c + 1) (m + 1) b"
      by (simp_all only: agg_def lz tz)
    have "subtree_ok s' c a b = subtree_ok s c a b"
      unfolding subtree_ok.simps [of s' c a b] subtree_ok.simps [of s c a b]
      using True L R ag tc "1.prems"(1,2) by (simp only: m_def [symmetric])
    moreover have "elem s' c a b i = elem s c a b i + (lazy s' ! c - lazy s ! c)"
      unfolding elem.simps [of s' c a b] elem.simps [of s c a b]
      using True L R lz by (simp add: m_def [symmetric])
    ultimately show ?thesis by simp
  qed
qed

lemma keeps_subtree:
  assumes "keeps d s s'" "sub c \<inter> sub d = {}" "1 \<le> c"
  shows "subtree_ok s' c a b = subtree_ok s c a b" "elem s' c a b i = elem s c a b i"
proof -
  have ag: "\<forall>p\<in>sub c. tree s' ! p = tree s ! p \<and> lazy s' ! p = lazy s ! p"
    using assms(1,2) unfolding keeps_def by blast
  have "subtree_ok s' c a b = subtree_ok s c a b \<and>
        elem s' c a b i = elem s c a b i + (lazy s' ! c - lazy s ! c)"
  proof (rule shift)
    show "length (tree s') = length (tree s)" "length (lazy s') = length (lazy s)"
      using assms(1) by (simp_all add: keeps_def)
    show "\<forall>p\<in>sub c. tree s' ! p = tree s ! p" using ag by blast
    show "\<forall>p\<in>sub c. p \<noteq> c \<longrightarrow> lazy s' ! p = lazy s ! p" using ag by blast
    show "1 \<le> c" by (rule assms(3))
  qed
  moreover have "lazy s' ! c = lazy s ! c" using ag sub_self by blast
  ultimately show "subtree_ok s' c a b = subtree_ok s c a b" "elem s' c a b i = elem s c a b i"
    by simp_all
qed

lemma sub_disjoint_lr: "1 \<le> c \<Longrightarrow> sub (2 * c) \<inter> sub (2 * c + 1) = {}"
  using sub_disjoint by blast

lemma sub_disjoint_rl: "1 \<le> c \<Longrightarrow> sub (2 * c + 1) \<inter> sub (2 * c) = {}"
  using sub_disjoint by blast

lemma keeps_outside: "keeps d s s' \<Longrightarrow> p \<notin> sub d \<Longrightarrow> tree s' ! p = tree s ! p \<and> lazy s' ! p = lazy s ! p"
  by (simp add: keeps_def)

subsection \<open>Adding a delta to a node, clearing its pending slot\<close>

lemma subtree_ok_bounds: "subtree_ok s node a b \<Longrightarrow> node < length (tree s) \<and> node < length (lazy s)"
  by (simp add: subtree_ok.simps [of s node a b])

lemma subtree_ok_children:
  assumes "a < b" "subtree_ok s node a b"
  shows "subtree_ok s (2 * node) a (midpoint a b)"
    and "subtree_ok s (2 * node + 1) (midpoint a b + 1) b"
    and "tree s ! node = agg s (2 * node) a (midpoint a b) + agg s (2 * node + 1) (midpoint a b + 1) b"
  using assms by (simp_all add: subtree_ok.simps [of s node a b])

lemma subtree_ok_leaf: "\<not> a < b \<Longrightarrow> subtree_ok s node a b \<longleftrightarrow> node < length (tree s) \<and> node < length (lazy s)"
  by (simp add: subtree_ok.simps [of s node a b])

lemma subtree_ok_inner:
  "a < b \<Longrightarrow> subtree_ok s node a b \<longleftrightarrow>
     node < length (tree s) \<and> node < length (lazy s) \<and>
     subtree_ok s (2 * node) a (midpoint a b) \<and>
     subtree_ok s (2 * node + 1) (midpoint a b + 1) b \<and>
     tree s ! node = agg s (2 * node) a (midpoint a b) + agg s (2 * node + 1) (midpoint a b + 1) b"
  by (simp add: subtree_ok.simps [of s node a b])

lemma elem_leaf: "\<not> a < b \<Longrightarrow> elem s node a b i = lazy s ! node + tree s ! node"
  by (simp add: elem.simps [of s node a b])

lemma elem_inner:
  "a < b \<Longrightarrow> elem s node a b i =
     lazy s ! node + (if i \<le> midpoint a b then elem s (2 * node) a (midpoint a b) i
                      else elem s (2 * node + 1) (midpoint a b + 1) b i)"
  by (simp add: elem.simps [of s node a b])

lemma sub_children: "2 * c \<in> sub c" "2 * c + 1 \<in> sub c"
  using sub_left [OF sub_self] sub_right [OF sub_self] by auto

lemma add_delta_spec:
  assumes ab: "a \<le> b" and n1: "1 \<le> node" and ok: "subtree_ok s node a b"
  shows "subtree_ok (add_delta s node a b z) node a b"
    and "elem (add_delta s node a b z) node a b i = elem s node a b i + z"
    and "keeps node s (add_delta s node a b z)"
    and "lazy (add_delta s node a b z) ! node = lazy s ! node"
proof -
  define s' where "s' = add_delta s node a b z"
  have bn: "node < length (tree s)" "node < length (lazy s)"
    using subtree_ok_bounds [OF ok] by simp_all
  have len: "length (tree s') = length (tree s)" "length (lazy s') = length (lazy s)" "size_n s' = size_n s"
    by (simp_all add: s'_def add_delta_def)
  have tr: "\<And>p. p \<noteq> node \<Longrightarrow> tree s' ! p = tree s ! p"
    by (simp add: s'_def add_delta_def)
  have trn: "tree s' ! node = tree s ! node + z * (b - a + 1)"
    using bn by (simp add: s'_def add_delta_def)
  have lzo: "\<And>p. p \<noteq> 2 * node \<Longrightarrow> p \<noteq> 2 * node + 1 \<Longrightarrow> lazy s' ! p = lazy s ! p"
    by (simp add: s'_def add_delta_def)
  have lzn: "lazy s' ! node = lazy s ! node"
    using n1 by (intro lzo) simp_all
  have kp: "keeps node s s'"
    unfolding keeps_def
  proof (intro conjI allI impI)
    fix p assume p: "p \<notin> sub node"
    then have "p \<noteq> node" "p \<noteq> 2 * node" "p \<noteq> 2 * node + 1"
      using sub_self [of node] sub_children [of node] by auto
    then show "tree s' ! p = tree s ! p" "lazy s' ! p = lazy s ! p"
      using tr lzo by simp_all
  qed (simp_all add: len)
  have main: "subtree_ok s' node a b \<and> elem s' node a b i = elem s node a b i + z"
  proof (cases "a < b")
    case False
    with ab have "a = b" by simp
    then show ?thesis
      using bn len trn by (simp add: subtree_ok_leaf elem_leaf s'_def add_delta_def)
  next
    case True
    define m where "m = midpoint a b"
    note ch = subtree_ok_children [OF True ok, folded m_def]
    have cb: "2 * node < length (lazy s)" "2 * node + 1 < length (lazy s)"
      using subtree_ok_bounds [OF ch(1)] subtree_ok_bounds [OF ch(2)] by simp_all
    have lzl: "lazy s' ! (2 * node) = lazy s ! (2 * node) + z"
      using True cb by (simp add: s'_def add_delta_def)
    have lzr: "lazy s' ! (2 * node + 1) = lazy s ! (2 * node + 1) + z"
      using True cb by (simp add: s'_def add_delta_def)
    have L: "subtree_ok s' (2 * node) a m = subtree_ok s (2 * node) a m \<and>
             elem s' (2 * node) a m i =
             elem s (2 * node) a m i + (lazy s' ! (2 * node) - lazy s ! (2 * node))"
    proof (rule shift)
      show "\<forall>p\<in>sub (2 * node). tree s' ! p = tree s ! p"
        by (metis tr sub_not_left [OF n1])
      show "\<forall>p\<in>sub (2 * node). p \<noteq> 2 * node \<longrightarrow> lazy s' ! p = lazy s ! p"
        by (metis lzo sub_disjoint [OF n1] sub_self [of "2 * node + 1"])
      show "1 \<le> 2 * node" using n1 by simp
    qed (simp_all add: len)
    have R: "subtree_ok s' (2 * node + 1) (m + 1) b = subtree_ok s (2 * node + 1) (m + 1) b \<and>
             elem s' (2 * node + 1) (m + 1) b i =
             elem s (2 * node + 1) (m + 1) b i + (lazy s' ! (2 * node + 1) - lazy s ! (2 * node + 1))"
    proof (rule shift)
      show "\<forall>p\<in>sub (2 * node + 1). tree s' ! p = tree s ! p"
        by (metis tr sub_not_right)
      show "\<forall>p\<in>sub (2 * node + 1). p \<noteq> 2 * node + 1 \<longrightarrow> lazy s' ! p = lazy s ! p"
        by (metis lzo sub_disjoint [OF n1] sub_self [of "2 * node"])
      show "1 \<le> 2 * node + 1" by simp
    qed (simp_all add: len)
    have tl: "tree s' ! (2 * node) = tree s ! (2 * node)" "tree s' ! (2 * node + 1) = tree s ! (2 * node + 1)"
      using n1 by (simp_all add: tr)
    have agl: "agg s' (2 * node) a m = agg s (2 * node) a m + z * (m - a + 1)"
      unfolding agg_def tl lzl by (simp add: algebra_simps)
    have agr: "agg s' (2 * node + 1) (m + 1) b = agg s (2 * node + 1) (m + 1) b + z * (b - m)"
      unfolding agg_def tl lzr by (simp add: algebra_simps)
    have "tree s' ! node = agg s' (2 * node) a m + agg s' (2 * node + 1) (m + 1) b"
      unfolding trn agl agr ch(3) by (simp add: algebra_simps)
    then have "subtree_ok s' node a b"
      using True L R ch bn len by (simp add: subtree_ok_inner m_def)
    moreover have "elem s' node a b i = elem s node a b i + z"
      using True L R lzl lzr lzn by (simp add: elem_inner m_def)
    ultimately show ?thesis by simp
  qed
  show "subtree_ok (add_delta s node a b z) node a b"
    and "elem (add_delta s node a b z) node a b i = elem s node a b i + z"
    and "keeps node s (add_delta s node a b z)"
    and "lazy (add_delta s node a b z) ! node = lazy s ! node"
    using main kp lzn by (simp_all add: s'_def)
qed

lemma clear_lazy_spec:
  assumes n1: "1 \<le> node" and ok: "subtree_ok s node a b"
  shows "subtree_ok (clear_lazy s node) node a b"
    and "elem (clear_lazy s node) node a b i = elem s node a b i - lazy s ! node"
    and "keeps node s (clear_lazy s node)"
    and "lazy (clear_lazy s node) ! node = 0"
proof -
  define s' where "s' = clear_lazy s node"
  have bn: "node < length (lazy s)" using subtree_ok_bounds [OF ok] by simp
  have z: "lazy s' ! node = 0" using bn by (simp add: s'_def clear_lazy_def)
  have o: "\<And>p. p \<noteq> node \<Longrightarrow> lazy s' ! p = lazy s ! p" by (simp add: s'_def clear_lazy_def)
  have t: "tree s' = tree s" "size_n s' = size_n s" "length (lazy s') = length (lazy s)"
    by (simp_all add: s'_def clear_lazy_def)
  have "subtree_ok s' node a b = subtree_ok s node a b \<and>
        elem s' node a b i = elem s node a b i + (lazy s' ! node - lazy s ! node)"
    by (rule shift) (use n1 in \<open>simp_all add: t o\<close>)
  moreover have "keeps node s s'"
    unfolding keeps_def
  proof (intro conjI allI impI)
    fix p assume "p \<notin> sub node"
    then have "p \<noteq> node" using sub_self [of node] by auto
    then show "tree s' ! p = tree s ! p" "lazy s' ! p = lazy s ! p" by (simp_all add: t o)
  qed (simp_all add: t)
  ultimately show "subtree_ok (clear_lazy s node) node a b"
    and "elem (clear_lazy s node) node a b i = elem s node a b i - lazy s ! node"
    and "keeps node s (clear_lazy s node)"
    and "lazy (clear_lazy s node) ! node = 0"
    using ok z by (simp_all add: s'_def)
qed

subsection \<open>\<open>push\<close>\<close>

lemma bindE_simps [simp]: "bindE (Ok x) f = f x" "bindE OutOfBounds f = OutOfBounds"
  by (simp_all add: bindE_def)

lemma bindR_simps [simp]:
  "bindR (Some (Ok x)) g = g x" "bindR (Some OutOfBounds) g = Some OutOfBounds" "bindR None g = None"
  by (simp_all add: bindR_def)

lemma tree_add_eq:
  "i < length (tree s) \<Longrightarrow> tree_add s i d = Ok (s\<lparr>tree := (tree s)[i := tree s ! i + d]\<rparr>)"
  by (simp add: tree_add_def tree_get_def tree_set_def)

lemma lazy_add_eq:
  "i < length (lazy s) \<Longrightarrow> lazy_add s i d = Ok (s\<lparr>lazy := (lazy s)[i := lazy s ! i + d]\<rparr>)"
  by (simp add: lazy_add_def lazy_get_def lazy_set_def)

lemma add_delta_steps:
  assumes "a \<le> b" "1 \<le> node" "subtree_ok s node a b"
  shows "bindE (tree_add s node (z * (b - a + 1))) (\<lambda>s1.
           if a \<noteq> b then bindE (lazy_add s1 (2 * node) z) (\<lambda>s2. lazy_add s2 (2 * node + 1) z)
           else Ok s1) = Ok (add_delta s node a b z)"
proof (cases "a < b")
  case False
  with assms(1) have "a = b" by simp
  then show ?thesis
    using subtree_ok_bounds [OF assms(3)] by (simp add: tree_add_eq add_delta_def)
next
  case True
  note ch = subtree_ok_children [OF True assms(3)]
  have "2 * node < length (lazy s)" "2 * node + 1 < length (lazy s)"
    using subtree_ok_bounds [OF ch(1)] subtree_ok_bounds [OF ch(2)] by simp_all
  then show ?thesis
    using True subtree_ok_bounds [OF assms(3)]
    by (simp add: tree_add_eq lazy_add_eq add_delta_def)
qed

lemma push_eq:
  assumes "a \<le> b" "1 \<le> node" "subtree_ok s node a b"
  shows "push s node a b =
         Ok (if lazy s ! node = 0 then s
             else clear_lazy (add_delta s node a b (lazy s ! node)) node)"
proof (cases "lazy s ! node = 0")
  case True
  then show ?thesis
    using subtree_ok_bounds [OF assms(3)] by (simp add: push_def lazy_get_def)
next
  case False
  have bn: "node < length (tree s)" "node < length (lazy s)"
    using subtree_ok_bounds [OF assms(3)] by simp_all
  show ?thesis
  proof (cases "a < b")
    case F: False
    with assms(1) have "a = b" by simp
    then show ?thesis
      using False bn
      by (simp add: push_def lazy_get_def lazy_set_def tree_add_eq add_delta_def clear_lazy_def)
  next
    case True
    note ch = subtree_ok_children [OF True assms(3)]
    have cb: "2 * node < length (lazy s)" "2 * node + 1 < length (lazy s)"
      using subtree_ok_bounds [OF ch(1)] subtree_ok_bounds [OF ch(2)] by simp_all
    have ne: "node \<noteq> 2 * node" "node \<noteq> Suc (2 * node)" using assms(2) by simp_all
    show ?thesis
      using False True bn cb ne
      by (simp add: push_def lazy_get_def lazy_set_def tree_add_eq lazy_add_eq add_delta_def
          clear_lazy_def)
  qed
qed

text \<open>\<open>push\<close> clears the node's pending slot and keeps every represented value.\<close>

lemma push_spec:
  assumes "a \<le> b" "1 \<le> node" "subtree_ok s node a b"
  shows "\<exists>s'. push s node a b = Ok s' \<and> subtree_ok s' node a b \<and> lazy s' ! node = 0 \<and>
              keeps node s s' \<and> (\<forall>i. elem s' node a b i = elem s node a b i)"
proof (cases "lazy s ! node = 0")
  case True
  then show ?thesis
    using assms by (simp add: push_eq keeps_refl)
next
  case False
  define z where "z = lazy s ! node"
  define s1 where "s1 = add_delta s node a b z"
  define s2 where "s2 = clear_lazy s1 node"
  note d = add_delta_spec [OF assms, of z, folded s1_def]
  note c = clear_lazy_spec [OF assms(2) d(1), folded s2_def]
  have "push s node a b = Ok s2"
    using False by (simp add: push_eq [OF assms] s2_def s1_def z_def)
  moreover have "keeps node s s2" using d(3) c(3) by (rule keeps_trans)
  moreover have "\<forall>i. elem s2 node a b i = elem s node a b i"
    using c(2) d(2) d(4) by (simp add: z_def)
  ultimately show ?thesis using c(1) c(4) by blast
qed

subsection \<open>\<open>update_recursive\<close>\<close>

lemma recombine_child:
  assumes "1 \<le> node" "c = 2 * node \<or> c = 2 * node + 1"
  shows "subtree_ok (s\<lparr>tree := (tree s)[node := x]\<rparr>) c a b = subtree_ok s c a b"
    and "elem (s\<lparr>tree := (tree s)[node := x]\<rparr>) c a b i = elem s c a b i"
proof -
  define s' where "s' = s\<lparr>tree := (tree s)[node := x]\<rparr>"
  have nc: "node \<notin> sub c" using assms sub_not_left sub_not_right by blast
  have "subtree_ok s' c a b = subtree_ok s c a b \<and>
        elem s' c a b i = elem s c a b i + (lazy s' ! c - lazy s ! c)"
  proof (rule shift)
    show "\<forall>p\<in>sub c. tree s' ! p = tree s ! p"
    proof
      fix p assume "p \<in> sub c"
      with nc have "p \<noteq> node" by auto
      then show "tree s' ! p = tree s ! p" by (simp add: s'_def)
    qed
    show "1 \<le> c" using assms by auto
  qed (simp_all add: s'_def)
  then show "subtree_ok (s\<lparr>tree := (tree s)[node := x]\<rparr>) c a b = subtree_ok s c a b"
    and "elem (s\<lparr>tree := (tree s)[node := x]\<rparr>) c a b i = elem s c a b i"
    by (simp_all add: s'_def)
qed

lemma recombine_keeps: "keeps node s (s\<lparr>tree := (tree s)[node := x]\<rparr>)"
  unfolding keeps_def
proof (intro conjI allI impI)
  fix p assume "p \<notin> sub node"
  then have "p \<noteq> node" using sub_self [of node] by auto
  then show "tree (s\<lparr>tree := (tree s)[node := x]\<rparr>) ! p = tree s ! p" by simp
qed simp_all

lemma recombine_eq:
  assumes "node < length (tree s)" "2 * node + 1 < length (tree s)"
  shows "bindE (tree_get s (2 * node)) (\<lambda>x. bindE (tree_get s (2 * node + 1)) (\<lambda>y.
           tree_set s node (x + y))) =
         Ok (s\<lparr>tree := (tree s)[node := tree s ! (2 * node) + tree s ! (2 * node + 1)]\<rparr>)"
  using assms by (simp add: tree_get_def tree_set_def)

text \<open>What two recursive calls on the children and the recombination establish.\<close>

lemma recombine_spec:
  assumes ab: "a < b" and n1: "1 \<le> node"
    and bn0: "node < length (tree s0)" "node < length (lazy s0)" and z0: "lazy s0 ! node = 0"
    and k1: "keeps (2 * node) s0 s1" and ok1: "subtree_ok s1 (2 * node) a (midpoint a b)"
    and z1: "lazy s1 ! (2 * node) = 0"
    and k2: "keeps (2 * node + 1) s1 s2" and ok2: "subtree_ok s2 (2 * node + 1) (midpoint a b + 1) b"
    and z2: "lazy s2 ! (2 * node + 1) = 0"
  defines "s3 \<equiv> s2\<lparr>tree := (tree s2)[node := tree s2 ! (2 * node) + tree s2 ! (2 * node + 1)]\<rparr>"
  shows "bindE (tree_get s2 (2 * node)) (\<lambda>x. bindE (tree_get s2 (2 * node + 1)) (\<lambda>y.
           tree_set s2 node (x + y))) = Ok s3"
    and "subtree_ok s3 node a b" and "lazy s3 ! node = 0" and "keeps node s0 s3"
    and "elem s3 node a b i =
         (if i \<le> midpoint a b then elem s1 (2 * node) a (midpoint a b) i
          else elem s2 (2 * node + 1) (midpoint a b + 1) b i)"
proof -
  define m where "m = midpoint a b"
  have len: "length (tree s2) = length (tree s0)" "length (lazy s2) = length (lazy s0)"
    using k1 k2 by (simp_all add: keeps_def)
  have bn2: "2 * node + 1 < length (tree s2)" "2 * node + 1 < length (lazy s2)"
    using subtree_ok_bounds [OF ok2] by simp_all
  show eq: "bindE (tree_get s2 (2 * node)) (\<lambda>x. bindE (tree_get s2 (2 * node + 1)) (\<lambda>y.
           tree_set s2 node (x + y))) = Ok s3"
    unfolding s3_def by (rule recombine_eq) (use bn0 bn2 len in simp_all)
  have nl: "node \<notin> sub (2 * node)" and nr: "node \<notin> sub (2 * node + 1)"
    using sub_not_left [OF n1] sub_not_right by auto
  have lr: "2 * node \<notin> sub (2 * node + 1)"
    using sub_disjoint [OF n1 sub_self] .
  have L2: "subtree_ok s2 (2 * node) a m" "elem s2 (2 * node) a m i = elem s1 (2 * node) a m i"
    using keeps_subtree(1) [OF k2 sub_disjoint_lr [OF n1], of a m]
      keeps_subtree(2) [OF k2 sub_disjoint_lr [OF n1], of a m i] ok1 n1 by (simp_all add: m_def)
  have zl2: "lazy s2 ! (2 * node) = 0"
    using keeps_outside [OF k2 lr] z1 by simp
  have zn: "lazy s2 ! node = 0"
    using keeps_outside [OF k2 nr] keeps_outside [OF k1 nl] z0 by simp
  have L3: "subtree_ok s3 (2 * node) a m" "elem s3 (2 * node) a m i = elem s1 (2 * node) a m i"
    unfolding s3_def using recombine_child [OF n1, of "2 * node" s2] L2 by simp_all
  have R3: "subtree_ok s3 (2 * node + 1) (m + 1) b"
    "elem s3 (2 * node + 1) (m + 1) b i = elem s2 (2 * node + 1) (m + 1) b i"
    unfolding s3_def using recombine_child [OF n1, of "2 * node + 1" s2] ok2 by (simp_all add: m_def)
  have lz3: "lazy s3 = lazy s2" by (simp add: s3_def)
  have ne: "2 * node \<noteq> node" "2 * node + 1 \<noteq> node" using n1 by simp_all
  have t3: "tree s3 ! (2 * node) = tree s2 ! (2 * node)" "tree s3 ! (2 * node + 1) = tree s2 ! (2 * node + 1)"
    "tree s3 ! node = tree s2 ! (2 * node) + tree s2 ! (2 * node + 1)"
    using ne bn0 len by (simp_all add: s3_def)
  have ag: "tree s3 ! node = agg s3 (2 * node) a m + agg s3 (2 * node + 1) (m + 1) b"
    unfolding agg_def lz3 t3 zl2 z2 by simp
  have bn3: "node < length (tree s3)" "node < length (lazy s3)"
    using bn0 len by (simp_all add: s3_def)
  show "subtree_ok s3 node a b"
    using ab L3(1) R3(1) ag bn3 by (simp add: subtree_ok_inner m_def)
  show "lazy s3 ! node = 0" using zn by (simp add: lz3)
  show "keeps node s0 s3"
    using keeps_trans [OF keeps_trans [OF keeps_left [OF k1] keeps_right [OF k2]]
        recombine_keeps [of node s2]]
    by (simp add: s3_def)
  show "elem s3 node a b i =
         (if i \<le> midpoint a b then elem s1 (2 * node) a (midpoint a b) i
          else elem s2 (2 * node + 1) (midpoint a b + 1) b i)"
    using ab L3(2) R3(2) zn by (simp add: elem_inner [of a b s3] lz3 m_def)
qed

text \<open>
  An update of the subtree at \<open>node\<close> returns, keeps the invariant, leaves the node without
  pending delta, changes nothing outside the subtree, and adds \<open>v\<close> to exactly the
  represented values with index in \<open>[l, r]\<close>.
\<close>

lemma update_spec:
  assumes "a \<le> b" "1 \<le> node" "subtree_ok s node a b"
  shows "\<exists>s'. update_recursive s node a b l r v = Some (Ok s') \<and>
              subtree_ok s' node a b \<and> lazy s' ! node = 0 \<and> keeps node s s' \<and>
              (\<forall>i. a \<le> i \<and> i \<le> b \<longrightarrow>
                   elem s' node a b i = elem s node a b i + (if l \<le> i \<and> i \<le> r then v else 0))"
  using assms
proof (induction "nat (b - a)" arbitrary: s node a b rule: less_induct)
  case less
  note ab = less.prems(1) and n1 = less.prems(2) and ok = less.prems(3)
  from push_spec [OF ab n1 ok] obtain s0 where
    p: "push s node a b = Ok s0" and ok0: "subtree_ok s0 node a b" and z0: "lazy s0 ! node = 0"
    and k0: "keeps node s s0" and e0: "\<And>i. elem s0 node a b i = elem s node a b i"
    by blast
  consider (disjoint) "a > r \<or> b < l" | (inside) "\<not> (a > r \<or> b < l)" "l \<le> a \<and> b \<le> r"
    | (partial) "\<not> (a > r \<or> b < l)" "\<not> (l \<le> a \<and> b \<le> r)" by blast
  then show ?case
  proof cases
    case disjoint
    then have "update_recursive s node a b l r v = Some (Ok s0)"
      by (subst update_recursive.simps) (auto simp: p)
    moreover have "\<forall>i. a \<le> i \<and> i \<le> b \<longrightarrow>
        elem s0 node a b i = elem s node a b i + (if l \<le> i \<and> i \<le> r then v else 0)"
      using disjoint e0 by auto
    ultimately show ?thesis using ok0 z0 k0 by blast
  next
    case inside
    define s1 where "s1 = add_delta s0 node a b v"
    note d = add_delta_spec [OF ab n1 ok0, of v, folded s1_def]
    have "update_recursive s node a b l r v = Some (Ok s1)"
      using inside ab add_delta_steps [OF ab n1 ok0, of v]
      by (subst update_recursive.simps) (simp add: p s1_def)
    moreover have "keeps node s s1" using k0 d(3) by (rule keeps_trans)
    moreover have "\<forall>i. a \<le> i \<and> i \<le> b \<longrightarrow>
        elem s1 node a b i = elem s node a b i + (if l \<le> i \<and> i \<le> r then v else 0)"
      using inside d(2) e0 by auto
    ultimately show ?thesis using d(1) d(4) z0 by auto
  next
    case partial
    with ab have lt: "a < b" by linarith
    define m where "m = midpoint a b"
    have mb: "a \<le> m" "m < b" using midpoint_bounds [OF lt] by (simp_all add: m_def)
    note ch = subtree_ok_children [OF lt ok0, folded m_def]
    have "\<exists>s1. update_recursive s0 (2 * node) a m l r v = Some (Ok s1) \<and>
              subtree_ok s1 (2 * node) a m \<and> lazy s1 ! (2 * node) = 0 \<and> keeps (2 * node) s0 s1 \<and>
              (\<forall>i. a \<le> i \<and> i \<le> m \<longrightarrow>
                   elem s1 (2 * node) a m i = elem s0 (2 * node) a m i + (if l \<le> i \<and> i \<le> r then v else 0))"
      by (rule less.hyps) (use mb n1 ch(1) in simp_all)
    then obtain s1 where u1: "update_recursive s0 (2 * node) a m l r v = Some (Ok s1)"
      and ok1: "subtree_ok s1 (2 * node) a m" and z1: "lazy s1 ! (2 * node) = 0"
      and k1: "keeps (2 * node) s0 s1"
      and e1: "\<And>i. a \<le> i \<Longrightarrow> i \<le> m \<Longrightarrow>
                elem s1 (2 * node) a m i = elem s0 (2 * node) a m i + (if l \<le> i \<and> i \<le> r then v else 0)"
      by blast
    have okr: "subtree_ok s1 (2 * node + 1) (m + 1) b"
      and er: "\<And>i. elem s1 (2 * node + 1) (m + 1) b i = elem s0 (2 * node + 1) (m + 1) b i"
      using keeps_subtree [OF k1 sub_disjoint_rl [OF n1], of "m + 1" b] ch(2) by simp_all
    have "\<exists>s2. update_recursive s1 (2 * node + 1) (m + 1) b l r v = Some (Ok s2) \<and>
              subtree_ok s2 (2 * node + 1) (m + 1) b \<and> lazy s2 ! (2 * node + 1) = 0 \<and>
              keeps (2 * node + 1) s1 s2 \<and>
              (\<forall>i. m + 1 \<le> i \<and> i \<le> b \<longrightarrow>
                   elem s2 (2 * node + 1) (m + 1) b i =
                   elem s1 (2 * node + 1) (m + 1) b i + (if l \<le> i \<and> i \<le> r then v else 0))"
      by (rule less.hyps) (use mb okr in simp_all)
    then obtain s2 where u2: "update_recursive s1 (2 * node + 1) (m + 1) b l r v = Some (Ok s2)"
      and ok2: "subtree_ok s2 (2 * node + 1) (m + 1) b" and z2: "lazy s2 ! (2 * node + 1) = 0"
      and k2: "keeps (2 * node + 1) s1 s2"
      and e2: "\<And>i. m + 1 \<le> i \<Longrightarrow> i \<le> b \<Longrightarrow>
                elem s2 (2 * node + 1) (m + 1) b i =
                elem s1 (2 * node + 1) (m + 1) b i + (if l \<le> i \<and> i \<le> r then v else 0)"
      by blast
    define s3 where "s3 = s2\<lparr>tree := (tree s2)[node := tree s2 ! (2 * node) + tree s2 ! (2 * node + 1)]\<rparr>"
    have bn0: "node < length (tree s0)" "node < length (lazy s0)"
      using subtree_ok_bounds [OF ok0] by simp_all
    note rc = recombine_spec [OF lt n1 bn0 z0 k1 [unfolded m_def] ok1 [unfolded m_def] z1
        k2 ok2 [unfolded m_def] z2, folded s3_def m_def]
    have "update_recursive s node a b l r v = Some (Ok s3)"
      using partial lt u1 u2 rc(1)
      by (subst update_recursive.simps) (auto simp: p m_def [symmetric])
    moreover have "keeps node s s3" using k0 rc(4) by (rule keeps_trans)
    moreover have "\<forall>i. a \<le> i \<and> i \<le> b \<longrightarrow>
        elem s3 node a b i = elem s node a b i + (if l \<le> i \<and> i \<le> r then v else 0)"
    proof (intro allI impI)
      fix i assume i: "a \<le> i \<and> i \<le> b"
      have "elem s node a b i = elem s0 node a b i" by (simp add: e0)
      also have "\<dots> = (if i \<le> m then elem s0 (2 * node) a m i else elem s0 (2 * node + 1) (m + 1) b i)"
        using lt z0 by (simp add: elem_inner m_def)
      finally show "elem s3 node a b i = elem s node a b i + (if l \<le> i \<and> i \<le> r then v else 0)"
        using i rc(5) [of i] e1 [of i] e2 [of i] er [of i] by auto
    qed
    ultimately show ?thesis using rc(2) rc(3) by blast
  qed
qed

subsection \<open>\<open>query_recursive\<close>\<close>

lemma sum_elem_cong:
  assumes "\<And>i. a \<le> i \<Longrightarrow> i \<le> b \<Longrightarrow> elem s' c a b i = elem s c a b i"
    and "a \<le> x" "y \<le> b"
  shows "(\<Sum>i\<in>{x..y}. elem s' c a b i) = (\<Sum>i\<in>{x..y}. elem s c a b i)"
  by (rule sum.cong) (use assms in auto)

lemma agg_cong:
  assumes "a \<le> b" "subtree_ok s c a b" "subtree_ok s' c a b"
    and "\<And>i. a \<le> i \<Longrightarrow> i \<le> b \<Longrightarrow> elem s' c a b i = elem s c a b i"
  shows "agg s' c a b = agg s c a b"
  using agg_sum [OF assms(1,2)] agg_sum [OF assms(1,3)] sum_elem_cong [OF assms(4), of a b]
  by simp

text \<open>
  A query of the subtree at \<open>node\<close> returns the sum of the represented values with index
  in \<open>[l, r]\<close>, keeps the invariant and every represented value, and changes nothing
  outside the subtree.
\<close>

lemma query_spec:
  assumes "a \<le> b" "1 \<le> node" "subtree_ok s node a b"
  shows "\<exists>s'. query_recursive s node a b l r =
                Some (Ok (\<Sum>i\<in>{max a l..min b r}. elem s node a b i, s')) \<and>
              subtree_ok s' node a b \<and> keeps node s s' \<and>
              (\<forall>i. a \<le> i \<and> i \<le> b \<longrightarrow> elem s' node a b i = elem s node a b i)"
  using assms
proof (induction "nat (b - a)" arbitrary: s node a b rule: less_induct)
  case less
  note ab = less.prems(1) and n1 = less.prems(2) and ok = less.prems(3)
  show ?case
  proof (cases "a > r \<or> b < l")
    case True
    then have "{max a l..min b r} = {}" using ab by auto
    moreover have "query_recursive s node a b l r = Some (Ok (0, s))"
      using True by (subst query_recursive.simps) auto
    ultimately show ?thesis using ok keeps_refl by auto
  next
    case nd: False
    from push_spec [OF ab n1 ok] obtain s0 where
      p: "push s node a b = Ok s0" and ok0: "subtree_ok s0 node a b" and z0: "lazy s0 ! node = 0"
      and k0: "keeps node s s0" and e0: "\<And>i. elem s0 node a b i = elem s node a b i"
      by blast
    show ?thesis
    proof (cases "l \<le> a \<and> b \<le> r")
      case True
      then have iv: "{max a l..min b r} = {a..b}" by (simp add: max_def min_def)
      have "tree s0 ! node = agg s0 node a b" by (simp add: agg_def z0)
      also have "\<dots> = (\<Sum>i\<in>{a..b}. elem s0 node a b i)" by (rule agg_sum [OF ab ok0])
      finally have t: "tree s0 ! node = (\<Sum>i\<in>{a..b}. elem s node a b i)" by (simp add: e0)
      have "query_recursive s node a b l r = Some (Ok (tree s0 ! node, s0))"
        using True nd ab subtree_ok_bounds [OF ok0]
        by (subst query_recursive.simps) (auto simp: p tree_get_def)
      then show ?thesis using ok0 k0 e0 by (auto simp: iv t)
    next
      case False
      with nd ab have lt: "a < b" by linarith
      define m where "m = midpoint a b"
      have mb: "a \<le> m" "m < b" using midpoint_bounds [OF lt] by (simp_all add: m_def)
      note ch = subtree_ok_children [OF lt ok0, folded m_def]
      have "\<exists>s1. query_recursive s0 (2 * node) a m l r =
                Some (Ok (\<Sum>i\<in>{max a l..min m r}. elem s0 (2 * node) a m i, s1)) \<and>
              subtree_ok s1 (2 * node) a m \<and> keeps (2 * node) s0 s1 \<and>
              (\<forall>i. a \<le> i \<and> i \<le> m \<longrightarrow> elem s1 (2 * node) a m i = elem s0 (2 * node) a m i)"
        by (rule less.hyps) (use mb n1 ch(1) in simp_all)
      then obtain s1 where
        q1: "query_recursive s0 (2 * node) a m l r =
               Some (Ok (\<Sum>i\<in>{max a l..min m r}. elem s0 (2 * node) a m i, s1))"
        and ok1: "subtree_ok s1 (2 * node) a m" and k1: "keeps (2 * node) s0 s1"
        and e1: "\<And>i. a \<le> i \<Longrightarrow> i \<le> m \<Longrightarrow> elem s1 (2 * node) a m i = elem s0 (2 * node) a m i"
        by blast
      have okr: "subtree_ok s1 (2 * node + 1) (m + 1) b"
        and er: "\<And>i. elem s1 (2 * node + 1) (m + 1) b i = elem s0 (2 * node + 1) (m + 1) b i"
        using keeps_subtree [OF k1 sub_disjoint_rl [OF n1], of "m + 1" b] ch(2) by simp_all
      have "\<exists>s2. query_recursive s1 (2 * node + 1) (m + 1) b l r =
                Some (Ok (\<Sum>i\<in>{max (m + 1) l..min b r}. elem s1 (2 * node + 1) (m + 1) b i, s2)) \<and>
              subtree_ok s2 (2 * node + 1) (m + 1) b \<and> keeps (2 * node + 1) s1 s2 \<and>
              (\<forall>i. m + 1 \<le> i \<and> i \<le> b \<longrightarrow>
                   elem s2 (2 * node + 1) (m + 1) b i = elem s1 (2 * node + 1) (m + 1) b i)"
        by (rule less.hyps) (use mb okr in simp_all)
      then obtain s2 where
        q2: "query_recursive s1 (2 * node + 1) (m + 1) b l r =
               Some (Ok (\<Sum>i\<in>{max (m + 1) l..min b r}. elem s1 (2 * node + 1) (m + 1) b i, s2))"
        and ok2: "subtree_ok s2 (2 * node + 1) (m + 1) b" and k2: "keeps (2 * node + 1) s1 s2"
        and e2: "\<And>i. m + 1 \<le> i \<Longrightarrow> i \<le> b \<Longrightarrow>
                  elem s2 (2 * node + 1) (m + 1) b i = elem s1 (2 * node + 1) (m + 1) b i"
        by blast
      have nl: "node \<notin> sub (2 * node)" and nr: "node \<notin> sub (2 * node + 1)"
        using sub_not_left [OF n1] sub_not_right by auto
      have okl2: "subtree_ok s2 (2 * node) a m"
        and el2: "\<And>i. elem s2 (2 * node) a m i = elem s1 (2 * node) a m i"
        using keeps_subtree [OF k2 sub_disjoint_lr [OF n1], of a m] ok1 n1 by simp_all
      have k02: "keeps node s0 s2"
        using keeps_trans [OF keeps_left [OF k1] keeps_right [OF k2]] .
      have root: "tree s2 ! node = tree s0 ! node" "lazy s2 ! node = 0"
        using keeps_outside [OF k2 nr] keeps_outside [OF k1 nl] z0 by simp_all
      have agl: "agg s2 (2 * node) a m = agg s0 (2 * node) a m"
        by (rule agg_cong [OF mb(1) ch(1) okl2]) (simp add: el2 e1)
      have er2: "\<And>i. m + 1 \<le> i \<Longrightarrow> i \<le> b \<Longrightarrow>
                  elem s2 (2 * node + 1) (m + 1) b i = elem s0 (2 * node + 1) (m + 1) b i"
        using e2 er by simp
      have agr: "agg s2 (2 * node + 1) (m + 1) b = agg s0 (2 * node + 1) (m + 1) b"
        by (rule agg_cong [OF _ ch(2) ok2 er2]) (use mb in simp_all)
      have bn: "node < length (tree s2)" "node < length (lazy s2)"
        using subtree_ok_bounds [OF ok0] k02 by (simp_all add: keeps_def)
      have ok2': "subtree_ok s2 node a b"
        using lt okl2 ok2 bn ch(3) agl agr root(1) by (simp add: subtree_ok_inner m_def)
      have el: "\<And>i. a \<le> i \<Longrightarrow> i \<le> b \<Longrightarrow> elem s2 node a b i = elem s node a b i"
      proof -
        fix i assume i: "a \<le> i" "i \<le> b"
        have "elem s2 node a b i = (if i \<le> m then elem s2 (2 * node) a m i
                                     else elem s2 (2 * node + 1) (m + 1) b i)"
          using lt root(2) by (simp add: elem_inner m_def)
        also have "\<dots> = (if i \<le> m then elem s0 (2 * node) a m i
                            else elem s0 (2 * node + 1) (m + 1) b i)"
          using i el2 [of i] e1 [of i] e2 [of i] er [of i] by auto
        also have "\<dots> = elem s0 node a b i"
          using lt z0 by (simp add: elem_inner m_def)
        finally show "elem s2 node a b i = elem s node a b i" by (simp add: e0)
      qed
      have val: "(\<Sum>i\<in>{max a l..min b r}. elem s node a b i) =
                 (\<Sum>i\<in>{max a l..min m r}. elem s0 (2 * node) a m i) +
                 (\<Sum>i\<in>{max (m + 1) l..min b r}. elem s1 (2 * node + 1) (m + 1) b i)"
      proof -
        have un: "{max a l..min b r} = {max a l..min m r} \<union> {max (m + 1) l..min b r}"
          using mb by auto
        have dj: "{max a l..min m r} \<inter> {max (m + 1) l..min b r} = {}" by auto
        have "(\<Sum>i\<in>{max a l..min b r}. elem s node a b i) =
              (\<Sum>i\<in>{max a l..min m r}. elem s node a b i) +
              (\<Sum>i\<in>{max (m + 1) l..min b r}. elem s node a b i)"
          unfolding un by (rule sum.union_disjoint) (simp_all add: dj)
        moreover have "(\<Sum>i\<in>{max a l..min m r}. elem s node a b i) =
                       (\<Sum>i\<in>{max a l..min m r}. elem s0 (2 * node) a m i)"
          by (rule sum.cong) (use lt z0 in \<open>simp_all add: e0 [symmetric] elem_inner m_def\<close>)
        moreover have "(\<Sum>i\<in>{max (m + 1) l..min b r}. elem s node a b i) =
                       (\<Sum>i\<in>{max (m + 1) l..min b r}. elem s1 (2 * node + 1) (m + 1) b i)"
          by (rule sum.cong) (use lt z0 er in \<open>simp_all add: e0 [symmetric] elem_inner m_def\<close>)
        ultimately show ?thesis by simp
      qed
      have "query_recursive s node a b l r =
            Some (Ok (\<Sum>i\<in>{max a l..min b r}. elem s node a b i, s2))"
        using False nd lt q1 q2
        by (subst query_recursive.simps) (auto simp: p m_def [symmetric] val)
      moreover have "keeps node s s2" using k0 k02 by (rule keeps_trans)
      ultimately show ?thesis using ok2' el by blast
    qed
  qed
qed

subsection \<open>\<open>build_recursive\<close>\<close>

lemma pow2_cover: "\<exists>j. n \<le> 2 ^ j \<and> (2::nat) ^ j \<le> 2 * n" if "1 \<le> n" for n :: nat
proof -
  define j where "j = (LEAST j. n \<le> 2 ^ j)"
  have ex: "n \<le> 2 ^ n" by (simp add: less_imp_le)
  have j: "n \<le> 2 ^ j" unfolding j_def using ex by (rule LeastI)
  have "(2::nat) ^ j \<le> 2 * n"
  proof (cases j)
    case 0
    then show ?thesis using that by simp
  next
    case (Suc k)
    then have "k < (LEAST j. n \<le> 2 ^ j)" by (simp add: j_def)
    then have "\<not> n \<le> 2 ^ k" by (rule not_less_Least)
    then show ?thesis using Suc by simp
  qed
  with j show ?thesis by blast
qed

text \<open>
  A range of at most \<open>2 ^ j\<close> indices below \<open>node\<close> uses positions below
  \<open>(node + 1) * 2 ^ j\<close> only; with room for them, the construction returns, establishes
  the invariant and represents the given array.
\<close>

lemma build_spec:
  assumes "0 \<le> a" "a \<le> b" "b < int (length arr)" "1 \<le> node"
    and "b - a + 1 \<le> 2 ^ j" "(node + 1) * 2 ^ j \<le> length (tree s)"
    and "length (lazy s) = length (tree s)" "\<forall>p < length (lazy s). lazy s ! p = 0"
  shows "\<exists>s'. build_recursive arr s node a b = Some (Ok s') \<and>
              subtree_ok s' node a b \<and> lazy s' = lazy s \<and> keeps node s s' \<and>
              (\<forall>i. a \<le> i \<and> i \<le> b \<longrightarrow> elem s' node a b i = arr ! nat i)"
  using assms
proof (induction "nat (b - a)" arbitrary: s node a b j rule: less_induct)
  case less
  note a0 = less.prems(1) and ab = less.prems(2) and bl = less.prems(3) and n1 = less.prems(4)
    and fit = less.prems(5,6) and ll = less.prems(7) and zz = less.prems(8)
  have "(node + 1) * 1 \<le> (node + 1) * 2 ^ j"
    by (rule mult_le_mono2) simp
  then have "node < (node + 1) * 2 ^ j" by simp
  then have bn: "node < length (tree s)" "node < length (lazy s)" using fit(2) ll by simp_all
  show ?case
  proof (cases "a < b")
    case False
    with ab have eq: "a = b" by simp
    define s' where "s' = s\<lparr>tree := (tree s)[node := arr ! nat a]\<rparr>"
    have "build_recursive arr s node a b = Some (Ok s')"
      using eq a0 bl bn
      by (subst build_recursive.simps) (simp add: arr_get_def tree_set_def s'_def)
    moreover have "subtree_ok s' node a b" using eq bn by (simp add: subtree_ok_leaf s'_def)
    moreover have "keeps node s s'" unfolding s'_def by (rule recombine_keeps)
    moreover have "\<forall>i. a \<le> i \<and> i \<le> b \<longrightarrow> elem s' node a b i = arr ! nat i"
      using eq bn zz by (auto simp: elem_leaf s'_def)
    ultimately show ?thesis by (auto simp: s'_def)
  next
    case lt: True
    define m where "m = midpoint a b"
    have md: "m = a + (b - a) div 2" using lt by (simp add: m_def midpoint_le)
    have mb: "a \<le> m" "m < b" using midpoint_bounds [OF lt] by (simp_all add: m_def)
    from lt fit(1) obtain k where k: "j = Suc k" by (cases j) auto
    have dv: "2 * ((b - a) div 2) \<le> b - a" "b - a \<le> 2 * ((b - a) div 2) + 1"
      by presburger+
    have f1: "b - a + 1 \<le> 2 * 2 ^ k" using fit(1) by (simp add: k)
    have half: "m - a + 1 \<le> 2 ^ k" "b - (m + 1) + 1 \<le> 2 ^ k"
      unfolding md using dv f1 by linarith+
    have fl: "(2 * node + 1) * 2 ^ k \<le> length (tree s)"
    proof -
      have "(2 * node + 1) * 2 ^ k \<le> (2 * node + 2) * 2 ^ k" by (rule mult_le_mono1) simp
      also have "\<dots> = (node + 1) * 2 ^ j" by (simp add: k)
      finally show ?thesis using fit(2) by simp
    qed
    have fr: "(2 * node + 1 + 1) * 2 ^ k \<le> length (tree s)"
      using fit(2) by (simp add: k)
    have "\<exists>s1. build_recursive arr s (2 * node) a m = Some (Ok s1) \<and>
              subtree_ok s1 (2 * node) a m \<and> lazy s1 = lazy s \<and> keeps (2 * node) s s1 \<and>
              (\<forall>i. a \<le> i \<and> i \<le> m \<longrightarrow> elem s1 (2 * node) a m i = arr ! nat i)"
      by (rule less.hyps [where j = k]) (use mb a0 bl n1 half fl ll zz in simp_all)
    then obtain s1 where b1: "build_recursive arr s (2 * node) a m = Some (Ok s1)"
      and ok1: "subtree_ok s1 (2 * node) a m" and l1: "lazy s1 = lazy s"
      and k1: "keeps (2 * node) s s1"
      and e1: "\<And>i. a \<le> i \<Longrightarrow> i \<le> m \<Longrightarrow> elem s1 (2 * node) a m i = arr ! nat i"
      by blast
    have len1: "length (tree s1) = length (tree s)" using k1 by (simp add: keeps_def)
    have "\<exists>s2. build_recursive arr s1 (2 * node + 1) (m + 1) b = Some (Ok s2) \<and>
              subtree_ok s2 (2 * node + 1) (m + 1) b \<and> lazy s2 = lazy s1 \<and>
              keeps (2 * node + 1) s1 s2 \<and>
              (\<forall>i. m + 1 \<le> i \<and> i \<le> b \<longrightarrow> elem s2 (2 * node + 1) (m + 1) b i = arr ! nat i)"
      by (rule less.hyps [where j = k]) (use mb a0 bl half fr ll zz l1 len1 in simp_all)
    then obtain s2 where b2: "build_recursive arr s1 (2 * node + 1) (m + 1) b = Some (Ok s2)"
      and ok2: "subtree_ok s2 (2 * node + 1) (m + 1) b" and l2: "lazy s2 = lazy s1"
      and k2: "keeps (2 * node + 1) s1 s2"
      and e2: "\<And>i. m + 1 \<le> i \<Longrightarrow> i \<le> b \<Longrightarrow> elem s2 (2 * node + 1) (m + 1) b i = arr ! nat i"
      by blast
    define s3 where "s3 = s2\<lparr>tree := (tree s2)[node := tree s2 ! (2 * node) + tree s2 ! (2 * node + 1)]\<rparr>"
    have cb: "2 * node < length (lazy s)" "2 * node + 1 < length (lazy s)"
      using subtree_ok_bounds [OF ok1] subtree_ok_bounds [OF ok2] l1 l2 by simp_all
    have z0: "lazy s ! node = 0" and z1: "lazy s1 ! (2 * node) = 0" and z2: "lazy s2 ! (2 * node + 1) = 0"
      using zz bn cb l1 l2 by simp_all
    note rc = recombine_spec [OF lt n1 bn z0 k1 [unfolded m_def] ok1 [unfolded m_def] z1
        k2 ok2 [unfolded m_def] z2, folded s3_def m_def]
    have "build_recursive arr s node a b = Some (Ok s3)"
      using lt b1 b2 rc(1)
      by (subst build_recursive.simps) (simp add: m_def [symmetric])
    moreover have "lazy s3 = lazy s" by (simp add: s3_def l1 l2)
    moreover have "\<forall>i. a \<le> i \<and> i \<le> b \<longrightarrow> elem s3 node a b i = arr ! nat i"
      using rc(5) e1 e2 by auto
    ultimately show ?thesis using rc(2) rc(4) by blast
  qed
qed

subsection \<open>The public interface and the mirror array\<close>

lemma length_contents [simp]: "length (contents s) = nat (size_n s)"
  by (simp add: contents_def)

lemma nth_contents: "0 \<le> i \<Longrightarrow> i < size_n s \<Longrightarrow> contents s ! nat i = elem s 1 0 (size_n s - 1) i"
  by (simp add: contents_def)

lemma range_sum_set: "range_sum M l r = (\<Sum>i\<in>{l..r}. M ! nat i)"
  unfolding range_sum_def by (simp add: sum_list_distinct_conv_sum_set)

lemma construct_spec:
  "\<exists>s. SegmentTree A = Some (Ok s) \<and> state_ok s \<and> contents s = A \<and> size_n s = int (length A) \<and>
       length (tree s) = 4 * length A \<and> length (lazy s) = 4 * length A"
proof (cases "A = []")
  case True
  then show ?thesis by (simp add: SegmentTree_def state_ok_def contents_def)
next
  case False
  define n where "n = length A"
  define s0 where "s0 = \<lparr>tree = replicate (4 * n) 0, lazy = replicate (4 * n) (0::int), size_n = int n\<rparr>"
  have n1: "1 \<le> n" using False by (cases A) (simp_all add: n_def)
  from pow2_cover [OF n1] obtain j where j: "n \<le> 2 ^ j" "(2::nat) ^ j \<le> 2 * n" by blast
  have j': "int n - 1 - 0 + 1 \<le> 2 ^ j"
    using j(1) by (metis add.commute add_diff_cancel_left' diff_zero of_nat_le_iff of_nat_numeral
        of_nat_power add_diff_eq)
  have "\<exists>s'. build_recursive A s0 1 0 (int n - 1) = Some (Ok s') \<and>
              subtree_ok s' 1 0 (int n - 1) \<and> lazy s' = lazy s0 \<and> keeps 1 s0 s' \<and>
              (\<forall>i. 0 \<le> i \<and> i \<le> int n - 1 \<longrightarrow> elem s' 1 0 (int n - 1) i = A ! nat i)"
    by (rule build_spec [where j = j]) (use False n1 j j' in \<open>simp_all add: s0_def n_def\<close>)
  then obtain s where b: "build_recursive A s0 1 0 (int n - 1) = Some (Ok s)"
    and ok: "subtree_ok s 1 0 (int n - 1)" and k: "keeps 1 s0 s"
    and e: "\<And>i. 0 \<le> i \<Longrightarrow> i \<le> int n - 1 \<Longrightarrow> elem s 1 0 (int n - 1) i = A ! nat i"
    by blast
  have sz: "size_n s = int n" "length (tree s) = 4 * n" "length (lazy s) = 4 * n"
    using k by (simp_all add: keeps_def s0_def)
  have "SegmentTree A = Some (Ok s)"
    using False b by (simp add: SegmentTree_def ROOT_NODE_def s0_def n_def)
  moreover have "state_ok s" using ok sz by (simp add: state_ok_def)
  moreover have "contents s = A"
    by (rule nth_equalityI) (use e in \<open>simp_all add: contents_def sz n_def\<close>)
  ultimately show ?thesis using sz by (simp add: n_def)
qed

lemma updateRange_spec:
  assumes "state_ok s"
  shows "\<exists>s'. updateRange s l r v = Some (Ok s') \<and> state_ok s' \<and> size_n s' = size_n s \<and>
              length (tree s') = length (tree s) \<and> length (lazy s') = length (lazy s) \<and>
              contents s' = mirror_update (contents s) l r v"
proof (cases "size_n s = 0 \<or> l < 0 \<or> r \<ge> size_n s \<or> l > r")
  case True
  then have "mirror_update (contents s) l r v = contents s"
    using assms by (auto simp: mirror_update_def state_ok_def)
  then show ?thesis using True assms by (simp add: updateRange_def)
next
  case False
  define n where "n = size_n s"
  have n1: "1 \<le> n" and ok: "subtree_ok s 1 0 (n - 1)"
    using False assms by (auto simp: state_ok_def n_def)
  have "\<exists>s'. update_recursive s 1 0 (n - 1) l r v = Some (Ok s') \<and>
              subtree_ok s' 1 0 (n - 1) \<and> lazy s' ! 1 = 0 \<and> keeps 1 s s' \<and>
              (\<forall>i. 0 \<le> i \<and> i \<le> n - 1 \<longrightarrow>
                   elem s' 1 0 (n - 1) i = elem s 1 0 (n - 1) i + (if l \<le> i \<and> i \<le> r then v else 0))"
    by (rule update_spec) (use n1 ok in simp_all)
  then obtain s' where u: "update_recursive s 1 0 (n - 1) l r v = Some (Ok s')"
    and ok': "subtree_ok s' 1 0 (n - 1)" and k: "keeps 1 s s'"
    and e: "\<And>i. 0 \<le> i \<Longrightarrow> i \<le> n - 1 \<Longrightarrow>
              elem s' 1 0 (n - 1) i = elem s 1 0 (n - 1) i + (if l \<le> i \<and> i \<le> r then v else 0)"
    by blast
  have sz: "size_n s' = n" "length (tree s') = length (tree s)" "length (lazy s') = length (lazy s)"
    using k by (simp_all add: keeps_def n_def)
  have "updateRange s l r v = Some (Ok s')"
    using False u by (simp add: updateRange_def ROOT_NODE_def n_def)
  moreover have "state_ok s'" using ok' n1 sz by (simp add: state_ok_def)
  moreover have "contents s' = mirror_update (contents s) l r v"
  proof (rule nth_equalityI)
    show "length (contents s') = length (mirror_update (contents s) l r v)"
      by (simp add: mirror_update_def sz n_def)
    fix i assume "i < length (contents s')"
    then have i: "i < nat n" by (simp add: sz)
    then have "contents s' ! i = elem s 1 0 (n - 1) (int i) + (if l \<le> int i \<and> int i \<le> r then v else 0)"
      using e [of "int i"] by (simp add: contents_def sz)
    moreover have "mirror_update (contents s) l r v ! i =
          contents s ! i + (if l \<le> int i \<and> int i \<le> r then v else 0)"
      using False i by (simp add: mirror_update_def n_def)
    moreover have "contents s ! i = elem s 1 0 (n - 1) (int i)"
      using i by (simp add: contents_def n_def)
    ultimately show "contents s' ! i = mirror_update (contents s) l r v ! i" by simp
  qed
  ultimately show ?thesis using sz by (simp add: n_def)
qed

lemma queryRange_spec:
  assumes "state_ok s"
  shows "\<exists>s'. queryRange s l r =
                Some (Ok (if 0 \<le> l \<and> l \<le> r \<and> r < size_n s then range_sum (contents s) l r else 0, s')) \<and>
              state_ok s' \<and> size_n s' = size_n s \<and>
              length (tree s') = length (tree s) \<and> length (lazy s') = length (lazy s) \<and>
              contents s' = contents s"
proof (cases "size_n s = 0 \<or> l < 0 \<or> r \<ge> size_n s \<or> l > r")
  case True
  then have "\<not> (0 \<le> l \<and> l \<le> r \<and> r < size_n s)" by auto
  then show ?thesis using True assms by (auto simp: queryRange_def)
next
  case False
  define n where "n = size_n s"
  have n1: "1 \<le> n" and ok: "subtree_ok s 1 0 (n - 1)"
    using False assms by (auto simp: state_ok_def n_def)
  have v: "0 \<le> l" "l \<le> r" "r < n" using False by (simp_all add: n_def)
  have "\<exists>s'. query_recursive s 1 0 (n - 1) l r =
                Some (Ok (\<Sum>i\<in>{max 0 l..min (n - 1) r}. elem s 1 0 (n - 1) i, s')) \<and>
              subtree_ok s' 1 0 (n - 1) \<and> keeps 1 s s' \<and>
              (\<forall>i. 0 \<le> i \<and> i \<le> n - 1 \<longrightarrow> elem s' 1 0 (n - 1) i = elem s 1 0 (n - 1) i)"
    by (rule query_spec) (use n1 ok in simp_all)
  then obtain s' where q: "query_recursive s 1 0 (n - 1) l r =
                Some (Ok (\<Sum>i\<in>{max 0 l..min (n - 1) r}. elem s 1 0 (n - 1) i, s'))"
    and ok': "subtree_ok s' 1 0 (n - 1)" and k: "keeps 1 s s'"
    and e: "\<And>i. 0 \<le> i \<Longrightarrow> i \<le> n - 1 \<Longrightarrow> elem s' 1 0 (n - 1) i = elem s 1 0 (n - 1) i"
    by blast
  have sz: "size_n s' = n" "length (tree s') = length (tree s)" "length (lazy s') = length (lazy s)"
    using k by (simp_all add: keeps_def n_def)
  have iv: "{max 0 l..min (n - 1) r} = {l..r}" using v by (simp add: max_def min_def)
  have "(\<Sum>i\<in>{l..r}. elem s 1 0 (n - 1) i) = range_sum (contents s) l r"
    unfolding range_sum_set
    by (rule sum.cong) (use v in \<open>simp_all add: nth_contents n_def\<close>)
  then have "queryRange s l r = Some (Ok (range_sum (contents s) l r, s'))"
    using False q by (simp add: queryRange_def ROOT_NODE_def n_def [symmetric] iv)
  moreover have "state_ok s'" using ok' n1 sz by (simp add: state_ok_def)
  moreover have "contents s' = contents s"
    by (rule nth_equalityI) (use e in \<open>simp_all add: contents_def sz n_def [symmetric]\<close>)
  ultimately show ?thesis using sz v by (simp add: n_def)
qed

lemma run_spec:
  "state_ok s \<Longrightarrow> \<exists>s'. run s ops = Some (Ok s') \<and> state_ok s' \<and> size_n s' = size_n s \<and>
           length (tree s') = length (tree s) \<and> length (lazy s') = length (lazy s) \<and>
           contents s' = mirror (contents s) ops"
proof (induction ops arbitrary: s)
  case Nil
  then show ?case by simp
next
  case (Cons x ops)
  show ?case
  proof (cases x)
    case (UpdateRange l r v)
    from updateRange_spec [OF Cons.prems, of l r v] obtain s1 where
      u: "updateRange s l r v = Some (Ok s1)" and w: "state_ok s1" and sz: "size_n s1 = size_n s"
      "length (tree s1) = length (tree s)" "length (lazy s1) = length (lazy s)"
      and c: "contents s1 = mirror_update (contents s) l r v" by blast
    from Cons.IH [OF w] show ?thesis by (simp add: UpdateRange u sz c)
  next
    case (QueryRange l r)
    from queryRange_spec [OF Cons.prems, of l r] obtain s1 q where
      u: "queryRange s l r = Some (Ok (q, s1))" and w: "state_ok s1" and sz: "size_n s1 = size_n s"
      "length (tree s1) = length (tree s)" "length (lazy s1) = length (lazy s)"
      and c: "contents s1 = contents s" by blast
    from Cons.IH [OF w] show ?thesis by (simp add: QueryRange u sz c)
  qed
qed

lemma after_spec:
  "\<exists>s. after A ops = Some (Ok s) \<and> state_ok s \<and> size_n s = int (length A) \<and>
       length (tree s) = 4 * length A \<and> length (lazy s) = 4 * length A \<and>
       contents s = mirror A ops"
proof -
  from construct_spec [of A] obtain s0 where c: "SegmentTree A = Some (Ok s0)" "state_ok s0"
    "contents s0 = A" "size_n s0 = int (length A)" "length (tree s0) = 4 * length A"
    "length (lazy s0) = 4 * length A" by blast
  from run_spec [OF c(2), of ops] show ?thesis by (simp add: after_def c)
qed

lemma bindR_assoc: "bindR (bindR m f) g = bindR m (\<lambda>x. bindR (f x) g)"
proof (cases m)
  case None
  then show ?thesis by simp
next
  case (Some a)
  then show ?thesis by (cases a) simp_all
qed

lemma run_append: "run s (xs @ ys) = bindR (run s xs) (\<lambda>s'. run s' ys)"
proof (induction xs arbitrary: s)
  case Nil
  show ?case by simp
next
  case (Cons x xs)
  show ?case
  proof (cases x)
    case (UpdateRange l r v)
    then show ?thesis by (simp add: Cons.IH bindR_assoc)
  next
    case (QueryRange l r)
    then show ?thesis by (simp add: Cons.IH bindR_assoc split_def)
  qed
qed

lemma mirror_append: "mirror M (xs @ ys) = mirror (mirror M xs) ys"
proof (induction xs arbitrary: M)
  case Nil
  show ?case by simp
next
  case (Cons x xs)
  then show ?case by (cases x) simp_all
qed

lemma length_mirror_update [simp]: "length (mirror_update M l r d) = length M"
  by (simp add: mirror_update_def)

lemma length_mirror [simp]: "length (mirror M ops) = length M"
proof (induction ops arbitrary: M)
  case Nil
  show ?case by simp
next
  case (Cons x xs)
  then show ?case by (cases x) simp_all
qed

lemma nth_mirror_update:
  "i < length M \<Longrightarrow> mirror_update M l r d ! i =
     M ! i + (if 0 \<le> l \<and> l \<le> r \<and> r < int (length M) \<and> l \<le> int i \<and> int i \<le> r then d else 0)"
  by (simp add: mirror_update_def)

lemma range_sum_update_same:
  assumes "0 \<le> l" "l \<le> r" "r < int (length M)"
  shows "range_sum (mirror_update M l r d) l r = range_sum M l r + d * (r - l + 1)"
proof -
  have "(\<Sum>i\<in>{l..r}. mirror_update M l r d ! nat i) = (\<Sum>i\<in>{l..r}. M ! nat i + d)"
  proof (rule sum.cong)
    fix x assume "x \<in> {l..r}"
    then have x: "l \<le> x" "x \<le> r" by simp_all
    then have "nat x < length M" "int (nat x) = x" using assms by linarith+
    then show "mirror_update M l r d ! nat x = M ! nat x + d"
      using x assms by (simp add: nth_mirror_update)
  qed simp
  then show ?thesis using assms by (simp add: range_sum_set sum.distrib algebra_simps)
qed

lemma range_sum_update_disjoint:
  assumes "0 \<le> a" "a \<le> b" "b < int (length M)" "b < l \<or> r < a"
  shows "range_sum (mirror_update M l r d) a b = range_sum M a b"
  unfolding range_sum_set
proof (rule sum.cong)
  fix x assume "x \<in> {a..b}"
  then have x: "a \<le> x" "x \<le> b" by simp_all
  then have "nat x < length M" "int (nat x) = x" using assms by linarith+
  then show "mirror_update M l r d ! nat x = M ! nat x"
    using x assms by (auto simp: nth_mirror_update)
qed simp

lemma range_sum_all: "range_sum A 0 (int (length A) - 1) = sum_list A"
proof -
  have "range_sum A 0 (int (length A) - 1) = (\<Sum>i\<in>{0..int (length A) - 1}. A ! nat i)"
    by (rule range_sum_set)
  also have "\<dots> = (\<Sum>i\<in>{0..<length A}. A ! i)"
    by (rule sum.reindex_bij_witness [where i = int and j = nat]) auto
  also have "\<dots> = sum_list A" by (simp add: sum_list_sum_nth)
  finally show ?thesis .
qed

lemma range_sum_single: "range_sum A i i = A ! nat i"
  by (simp add: range_sum_def)

text \<open>
  Over the integers: right after the construction, the query of the whole array returns the
  sum of its elements, and the query of one index returns the element.
\<close>

lemma construct_query_int:
  "A \<noteq> [] \<Longrightarrow>
   \<exists>s. SegmentTree A = Some (Ok s) \<and>
       (\<exists>s'. queryRange s 0 (int (length A) - 1) = Some (Ok (sum_list A, s'))) \<and>
       (\<forall>i<length A. \<exists>s'. queryRange s (int i) (int i) = Some (Ok (A ! i, s')))"
proof -
  assume ne: "A \<noteq> []"
  from construct_spec [of A] obtain s where s: "SegmentTree A = Some (Ok s)" "state_ok s"
    "contents s = A" "size_n s = int (length A)" by blast
  have "\<exists>s'. queryRange s 0 (int (length A) - 1) = Some (Ok (sum_list A, s'))"
    using queryRange_spec [OF s(2), of 0 "int (length A) - 1"] ne
    by (auto simp: s range_sum_all)
  moreover have "\<exists>s'. queryRange s (int i) (int i) = Some (Ok (A ! i, s'))" if "i < length A" for i
    using queryRange_spec [OF s(2), of "int i" "int i"] that
    by (auto simp: s range_sum_single)
  ultimately show ?thesis using s(1) by blast
qed

subsection \<open>Termination\<close>

lemma bindR_total:
  "m = Some x \<Longrightarrow> (\<And>y. \<exists>z. f y = Some z) \<Longrightarrow> \<exists>z. bindR m f = Some z"
  by (cases x) simp_all

lemma update_terminates: "\<exists>res. update_recursive s node a b l r v = Some res"
proof (induction "nat (b - a)" arbitrary: s node a b rule: less_induct)
  case less
  show ?case
  proof (cases "\<not> (a > b \<or> a > r \<or> b < l) \<and> \<not> (l \<le> a \<and> b \<le> r)")
    case False
    then show ?thesis
      by (subst update_recursive.simps) (cases "push s node a b"; auto)
  next
    case True
    then have lt: "a < b" by linarith
    define m where "m = midpoint a b"
    have mb: "a \<le> m" "m < b" using midpoint_bounds [OF lt] by (simp_all add: m_def)
    have L: "\<exists>res. update_recursive t (2 * node) a m l r v = Some res" for t
      by (rule less.hyps) (use mb in simp)
    have R: "\<exists>res. update_recursive t (2 * node + 1) (m + 1) b l r v = Some res" for t
      by (rule less.hyps) (use mb in simp)
    have "\<exists>res. bindR (update_recursive t (2 * node) a m l r v) (\<lambda>s1.
            bindR (update_recursive s1 (2 * node + 1) (m + 1) b l r v) (\<lambda>s2.
            Some (bindE (tree_get s2 (2 * node)) (\<lambda>x. bindE (tree_get s2 (2 * node + 1)) (\<lambda>y.
                  tree_set s2 node (x + y)))))) = Some res" for t
    proof -
      from L [of t] obtain r1 where r1: "update_recursive t (2 * node) a m l r v = Some r1" by blast
      show ?thesis
      proof (rule bindR_total [OF r1])
        fix s1
        from R [of s1] obtain r2 where r2: "update_recursive s1 (2 * node + 1) (m + 1) b l r v = Some r2"
          by blast
        show "\<exists>z. bindR (update_recursive s1 (2 * node + 1) (m + 1) b l r v) (\<lambda>s2.
            Some (bindE (tree_get s2 (2 * node)) (\<lambda>x. bindE (tree_get s2 (2 * node + 1)) (\<lambda>y.
                  tree_set s2 node (x + y))))) = Some z"
          by (rule bindR_total [OF r2]) simp
      qed
    qed
    then show ?thesis
      using True
      by (subst update_recursive.simps) (cases "push s node a b"; auto simp: m_def)
  qed
qed

lemma query_terminates: "\<exists>res. query_recursive s node a b l r = Some res"
proof (induction "nat (b - a)" arbitrary: s node a b rule: less_induct)
  case less
  show ?case
  proof (cases "\<not> (a > b \<or> a > r \<or> b < l) \<and> \<not> (l \<le> a \<and> b \<le> r)")
    case False
    then show ?thesis
      by (subst query_recursive.simps) (cases "push s node a b"; auto)
  next
    case True
    then have lt: "a < b" by linarith
    define m where "m = midpoint a b"
    have mb: "a \<le> m" "m < b" using midpoint_bounds [OF lt] by (simp_all add: m_def)
    have L: "\<exists>res. query_recursive t (2 * node) a m l r = Some res" for t
      by (rule less.hyps) (use mb in simp)
    have R: "\<exists>res. query_recursive t (2 * node + 1) (m + 1) b l r = Some res" for t
      by (rule less.hyps) (use mb in simp)
    have "\<exists>res. bindR (query_recursive t (2 * node) a m l r) (\<lambda>(p1, s1).
            bindR (query_recursive s1 (2 * node + 1) (m + 1) b l r) (\<lambda>(p2, s2).
            Some (Ok (p1 + p2, s2)))) = Some res" for t
    proof -
      from L [of t] obtain r1 where r1: "query_recursive t (2 * node) a m l r = Some r1" by blast
      show ?thesis
      proof (rule bindR_total [OF r1])
        fix y :: "int \<times> st"
        obtain p1 s1 where y: "y = (p1, s1)" by (cases y)
        from R [of s1] obtain r2 where r2: "query_recursive s1 (2 * node + 1) (m + 1) b l r = Some r2"
          by blast
        have "\<exists>z. bindR (query_recursive s1 (2 * node + 1) (m + 1) b l r) (\<lambda>(p2, s2).
            Some (Ok (p1 + p2, s2))) = Some z"
          by (rule bindR_total [OF r2]) auto
        then show "\<exists>z. (case y of (p1, s1) \<Rightarrow>
            bindR (query_recursive s1 (2 * node + 1) (m + 1) b l r) (\<lambda>(p2, s2).
            Some (Ok (p1 + p2, s2)))) = Some z"
          by (simp add: y)
      qed
    qed
    then show ?thesis
      using True
      by (subst query_recursive.simps) (cases "push s node a b"; auto simp: m_def)
  qed
qed

lemma build_terminates: "a \<le> b \<Longrightarrow> \<exists>res. build_recursive arr s node a b = Some res"
proof (induction "nat (b - a)" arbitrary: s node a b rule: less_induct)
  case less
  show ?case
  proof (cases "a = b")
    case True
    then show ?thesis by (subst build_recursive.simps) simp
  next
    case False
    with less.prems have lt: "a < b" by simp
    define m where "m = midpoint a b"
    have mb: "a \<le> m" "m < b" using midpoint_bounds [OF lt] by (simp_all add: m_def)
    have L: "\<exists>res. build_recursive arr t (2 * node) a m = Some res" for t
      by (rule less.hyps) (use mb in simp_all)
    have R: "\<exists>res. build_recursive arr t (2 * node + 1) (m + 1) b = Some res" for t
      by (rule less.hyps) (use mb in simp_all)
    from L [of s] obtain r1 where r1: "build_recursive arr s (2 * node) a m = Some r1" by blast
    have "\<exists>res. bindR (build_recursive arr s (2 * node) a m) (\<lambda>s1.
            bindR (build_recursive arr s1 (2 * node + 1) (m + 1) b) (\<lambda>s2.
            Some (bindE (tree_get s2 (2 * node)) (\<lambda>x. bindE (tree_get s2 (2 * node + 1)) (\<lambda>y.
                  tree_set s2 node (x + y)))))) = Some res"
    proof (rule bindR_total [OF r1])
      fix s1
      from R [of s1] obtain r2 where r2: "build_recursive arr s1 (2 * node + 1) (m + 1) b = Some r2"
        by blast
      show "\<exists>z. bindR (build_recursive arr s1 (2 * node + 1) (m + 1) b) (\<lambda>s2.
            Some (bindE (tree_get s2 (2 * node)) (\<lambda>x. bindE (tree_get s2 (2 * node + 1)) (\<lambda>y.
                  tree_set s2 node (x + y))))) = Some z"
        by (rule bindR_total [OF r2]) simp
    qed
    then show ?thesis
      using False by (subst build_recursive.simps) (simp add: m_def)
  qed
qed

subsection \<open>The calls of the two traversals\<close>

lemma update_calls_mem:
  "c \<in> set (update_calls node a b l r) \<longleftrightarrow>
     c = (node, a, b) \<or>
     (\<not> (a > b \<or> a > r \<or> b < l) \<and> \<not> (l \<le> a \<and> b \<le> r) \<and>
      (c \<in> set (update_calls (2 * node) a (midpoint a b) l r) \<or>
       c \<in> set (update_calls (2 * node + 1) (midpoint a b + 1) b l r)))"
  by (subst update_calls.simps) auto

lemma query_calls_mem:
  "c \<in> set (query_calls node a b l r) \<longleftrightarrow>
     c = (node, a, b) \<or>
     (\<not> (a > b \<or> a > r \<or> b < l) \<and> \<not> (l \<le> a \<and> b \<le> r) \<and>
      (c \<in> set (query_calls (2 * node) a (midpoint a b) l r) \<or>
       c \<in> set (query_calls (2 * node + 1) (midpoint a b + 1) b l r)))"
  by (subst query_calls.simps) auto

lemma update_calls_le:
  "a \<le> b \<Longrightarrow> c \<in> set (update_calls node a b l r) \<Longrightarrow> fst (snd c) \<le> snd (snd c)"
proof (induction node a b l r rule: update_calls.induct)
  case (1 node a b l r)
  show ?case
  proof (cases "\<not> (a > b \<or> a > r \<or> b < l) \<and> \<not> (l \<le> a \<and> b \<le> r)")
    case False
    then show ?thesis
      using "1.prems" by (subst (asm) update_calls_mem) auto
  next
    case True
    then have lt: "a < b" by linarith
    have mb: "a \<le> midpoint a b" "midpoint a b + 1 \<le> b" using midpoint_bounds [OF lt] by simp_all
    from "1.prems"(2) True have
      "c = (node, a, b) \<or> c \<in> set (update_calls (2 * node) a (midpoint a b) l r) \<or>
       c \<in> set (update_calls (2 * node + 1) (midpoint a b + 1) b l r)"
      by (subst (asm) update_calls_mem) auto
    then show ?thesis
      using "1.IH"(1) [OF _ _ mb(1)] "1.IH"(2) [OF _ _ mb(2)] True "1.prems"(1) by auto
  qed
qed

lemma query_calls_le:
  "a \<le> b \<Longrightarrow> c \<in> set (query_calls node a b l r) \<Longrightarrow> fst (snd c) \<le> snd (snd c)"
proof (induction node a b l r rule: query_calls.induct)
  case (1 node a b l r)
  show ?case
  proof (cases "\<not> (a > b \<or> a > r \<or> b < l) \<and> \<not> (l \<le> a \<and> b \<le> r)")
    case False
    then show ?thesis
      using "1.prems" by (subst (asm) query_calls_mem) auto
  next
    case True
    then have lt: "a < b" by linarith
    have mb: "a \<le> midpoint a b" "midpoint a b + 1 \<le> b" using midpoint_bounds [OF lt] by simp_all
    from "1.prems"(2) True have
      "c = (node, a, b) \<or> c \<in> set (query_calls (2 * node) a (midpoint a b) l r) \<or>
       c \<in> set (query_calls (2 * node + 1) (midpoint a b + 1) b l r)"
      by (subst (asm) query_calls_mem) auto
    then show ?thesis
      using "1.IH"(1) [OF _ _ mb(1)] "1.IH"(2) [OF _ _ mb(2)] True "1.prems"(1) by auto
  qed
qed

lemma update_calls_nodes:
  "node_range n node a b \<Longrightarrow> c \<in> set (update_calls node a b l r) \<Longrightarrow>
   node_range n (fst c) (fst (snd c)) (snd (snd c))"
proof (induction node a b l r rule: update_calls.induct)
  case (1 node a b l r)
  show ?case
  proof (cases "\<not> (a > b \<or> a > r \<or> b < l) \<and> \<not> (l \<le> a \<and> b \<le> r)")
    case False
    then show ?thesis
      using "1.prems" by (subst (asm) update_calls_mem) auto
  next
    case True
    then have ne: "a \<noteq> b" by linarith
    note L = node_range.left [OF "1.prems"(1) ne] and R = node_range.right [OF "1.prems"(1) ne]
    from "1.prems"(2) True have
      "c = (node, a, b) \<or> c \<in> set (update_calls (2 * node) a (midpoint a b) l r) \<or>
       c \<in> set (update_calls (2 * node + 1) (midpoint a b + 1) b l r)"
      by (subst (asm) update_calls_mem) auto
    then show ?thesis
      using "1.IH"(1) [OF _ _ L] "1.IH"(2) [OF _ _ R] True "1.prems"(1) by auto
  qed
qed

lemma query_calls_nodes:
  "node_range n node a b \<Longrightarrow> c \<in> set (query_calls node a b l r) \<Longrightarrow>
   node_range n (fst c) (fst (snd c)) (snd (snd c))"
proof (induction node a b l r rule: query_calls.induct)
  case (1 node a b l r)
  show ?case
  proof (cases "\<not> (a > b \<or> a > r \<or> b < l) \<and> \<not> (l \<le> a \<and> b \<le> r)")
    case False
    then show ?thesis
      using "1.prems" by (subst (asm) query_calls_mem) auto
  next
    case True
    then have ne: "a \<noteq> b" by linarith
    note L = node_range.left [OF "1.prems"(1) ne] and R = node_range.right [OF "1.prems"(1) ne]
    from "1.prems"(2) True have
      "c = (node, a, b) \<or> c \<in> set (query_calls (2 * node) a (midpoint a b) l r) \<or>
       c \<in> set (query_calls (2 * node + 1) (midpoint a b + 1) b l r)"
      by (subst (asm) query_calls_mem) auto
    then show ?thesis
      using "1.IH"(1) [OF _ _ L] "1.IH"(2) [OF _ _ R] True "1.prems"(1) by auto
  qed
qed

subsection \<open>Nodes of the tree\<close>

lemma anc_lazy_root: "anc_lazy s 1 = 0"
  by (subst anc_lazy.simps) simp

lemma anc_lazy_child:
  "1 \<le> node \<Longrightarrow> anc_lazy s (2 * node) = lazy s ! node + anc_lazy s node"
  "1 \<le> node \<Longrightarrow> anc_lazy s (2 * node + 1) = lazy s ! node + anc_lazy s node"
  by (subst anc_lazy.simps, simp)+

lemma node_range_spec:
  assumes "node_range n node a b" "subtree_ok s 1 0 (n - 1)"
  shows "1 \<le> n \<and> 1 \<le> node \<and> 0 \<le> a \<and> a \<le> b \<and> b \<le> n - 1 \<and> subtree_ok s node a b \<and>
         (\<forall>i. a \<le> i \<and> i \<le> b \<longrightarrow> elem s 1 0 (n - 1) i = anc_lazy s node + elem s node a b i)"
  using assms
proof (induction rule: node_range.induct)
  case root
  then show ?case using anc_lazy_root [of s] by (simp add: ROOT_NODE_def)
next
  case (left node a b)
  then have IH: "1 \<le> n" "1 \<le> node" "0 \<le> a" "a \<le> b" "b \<le> n - 1" "subtree_ok s node a b"
    and e: "\<And>i. a \<le> i \<Longrightarrow> i \<le> b \<Longrightarrow> elem s 1 0 (n - 1) i = anc_lazy s node + elem s node a b i"
    by simp_all
  from IH(4) left.hyps(2) have lt: "a < b" by simp
  have mb: "a \<le> midpoint a b" "midpoint a b < b" using midpoint_bounds [OF lt] by simp_all
  have "elem s 1 0 (n - 1) i = anc_lazy s (2 * node) + elem s (2 * node) a (midpoint a b) i"
    if "a \<le> i" "i \<le> midpoint a b" for i
    using e [of i] that mb lt IH(2) anc_lazy_child [of node s] by (simp add: elem_inner)
  then show ?case
    using IH mb subtree_ok_children(1) [OF lt IH(6)] by auto
next
  case (right node a b)
  then have IH: "1 \<le> n" "1 \<le> node" "0 \<le> a" "a \<le> b" "b \<le> n - 1" "subtree_ok s node a b"
    and e: "\<And>i. a \<le> i \<Longrightarrow> i \<le> b \<Longrightarrow> elem s 1 0 (n - 1) i = anc_lazy s node + elem s node a b i"
    by simp_all
  from IH(4) right.hyps(2) have lt: "a < b" by simp
  have mb: "a \<le> midpoint a b" "midpoint a b < b" using midpoint_bounds [OF lt] by simp_all
  have "elem s 1 0 (n - 1) i = anc_lazy s (2 * node + 1) + elem s (2 * node + 1) (midpoint a b + 1) b i"
    if "midpoint a b + 1 \<le> i" "i \<le> b" for i
    using e [of i] that mb lt IH(2) anc_lazy_child [of node s] by (simp add: elem_inner)
  then show ?case
    using IH mb subtree_ok_children(2) [OF lt IH(6)] by auto
qed

text \<open>
  Over the integers: every run ends in \<open>Ok\<close> with both vectors of \<open>4 * N\<close> slots,
  and every node and every call of the traversals is at a position in \<open>[1, 4 * N)\<close>.
\<close>

lemma positions_in_bounds_int:
  "A \<noteq> [] \<Longrightarrow>
   (\<exists>s. after A ops = Some (Ok s) \<and> length (tree s) = 4 * length A \<and> length (lazy s) = 4 * length A) \<and>
   (\<forall>node start end. node_range (int (length A)) node start end \<longrightarrow>
       1 \<le> node \<and> node < 4 * length A) \<and>
   (\<forall>(node, start, end) \<in> set (updateRange_calls (int (length A)) l r) \<union>
                            set (queryRange_calls (int (length A)) l r).
       1 \<le> node \<and> node < 4 * length A \<and> (start \<noteq> end \<longrightarrow> 2 * node + 1 < 4 * length A))"
proof -
  assume ne: "A \<noteq> []"
  define n where "n = int (length A)"
  from after_spec [of A ops] obtain s where s: "after A ops = Some (Ok s)" "state_ok s"
    "size_n s = n" "length (tree s) = 4 * length A" "length (lazy s) = 4 * length A"
    by (auto simp: n_def)
  have n1: "1 \<le> n" using ne by (cases A) (simp_all add: n_def)
  have ok: "subtree_ok s 1 0 (n - 1)" using s(2,3) n1 by (simp add: state_ok_def)
  have nb: "1 \<le> node \<and> node < 4 * length A \<and> (a \<noteq> b \<longrightarrow> 2 * node + 1 < 4 * length A)"
    if "node_range n node a b" for node a b
  proof -
    note sp = node_range_spec [OF that ok]
    have "node < 4 * length A" using subtree_ok_bounds [of s node a b] sp s(4) by simp
    moreover have "2 * node + 1 < 4 * length A" if "a \<noteq> b"
    proof -
      from that sp have "a < b" by simp
      from subtree_ok_children(2) [OF this] sp
      have "subtree_ok s (2 * node + 1) (midpoint a b + 1) b" by simp
      from subtree_ok_bounds [OF this] s(4) show ?thesis by simp
    qed
    ultimately show ?thesis using sp by simp
  qed
  have calls: "1 \<le> fst c \<and> fst c < 4 * length A \<and>
               (fst (snd c) \<noteq> snd (snd c) \<longrightarrow> 2 * fst c + 1 < 4 * length A)"
    if "c \<in> set (updateRange_calls n l r) \<union> set (queryRange_calls n l r)" for c
  proof -
    have rt: "node_range n ROOT_NODE 0 (n - 1)" using n1 by (rule node_range.root)
    from that have "c \<in> set (update_calls ROOT_NODE 0 (n - 1) l r) \<or>
                    c \<in> set (query_calls ROOT_NODE 0 (n - 1) l r)"
      by (auto simp: updateRange_calls_def queryRange_calls_def split: if_splits)
    then have "node_range n (fst c) (fst (snd c)) (snd (snd c))"
      using update_calls_nodes [OF rt] query_calls_nodes [OF rt] by blast
    then show ?thesis by (rule nb)
  qed
  show ?thesis
    using s(1,4,5) nb calls unfolding n_def by (auto simp: split_def)
qed

lemma query_value_is_mirror_sum:
  "after A ops = Some (Ok s) \<Longrightarrow> 0 \<le> l \<Longrightarrow> l \<le> r \<Longrightarrow> r < int (length A) \<Longrightarrow>
   queryRange s l r = Some (Ok (v, t)) \<Longrightarrow> v = range_sum (mirror A ops) l r"
proof -
  assume a: "after A ops = Some (Ok s)" and v: "0 \<le> l" "l \<le> r" "r < int (length A)"
    and q: "queryRange s l r = Some (Ok (v, t))"
  from after_spec [of A ops] a have s: "state_ok s" "size_n s = int (length A)"
    "contents s = mirror A ops" by auto
  from queryRange_spec [OF s(1), of l r] q v show ?thesis by (auto simp: s)
qed

text \<open>
  Over the integers: the sum of the represented array over the range of a node is
  \<open>tree[node]\<close> plus the length of the range times the pending deltas of the node and
  of its proper ancestors.
\<close>

lemma node_sum_int:
  "after A ops = Some (Ok s) \<Longrightarrow> node_range (int (length A)) node start end \<Longrightarrow>
   range_sum (mirror A ops) start end =
     tree s ! node + (end - start + 1) * (lazy s ! node + anc_lazy s node)"
proof -
  assume r: "after A ops = Some (Ok s)" and nr: "node_range (int (length A)) node start end"
  define n where "n = int (length A)"
  from after_spec [of A ops] r have s: "state_ok s" "size_n s = n" "contents s = mirror A ops"
    by (auto simp: n_def)
  from nr have nr': "node_range n node start end" by (simp add: n_def)
  have n1: "1 \<le> n" using nr' by (induction rule: node_range.induct) simp_all
  have ok: "subtree_ok s 1 0 (n - 1)" using s(1,2) n1 by (simp add: state_ok_def)
  note sp = node_range_spec [OF nr' ok]
  have ab: "0 \<le> start" "start \<le> end" "end \<le> n - 1" and okn: "subtree_ok s node start end" using sp by simp_all
  have e: "elem s 1 0 (n - 1) i = anc_lazy s node + elem s node start end i"
    if "start \<le> i" "i \<le> end" for i using sp that by simp
  have "range_sum (mirror A ops) start end = (\<Sum>i\<in>{start..end}. contents s ! nat i)"
    by (simp add: range_sum_set s(3))
  also have "\<dots> = (\<Sum>i\<in>{start..end}. anc_lazy s node + elem s node start end i)"
    by (rule sum.cong) (use ab e in \<open>simp_all add: nth_contents s(2)\<close>)
  also have "\<dots> = (end - start + 1) * anc_lazy s node + agg s node start end"
    using ab by (simp add: sum.distrib agg_sum [OF ab(2) okn])
  finally show ?thesis by (simp add: agg_def algebra_simps)
qed

subsection \<open>The two models\<close>

text \<open>
  A run over the integers that ends in \<open>Ok\<close> is followed step by step by the machine:
  the machine ends in \<open>Ok32\<close>, in the image of the final state. Sums and products
  commute with the reduction modulo \<open>2 ^ 32\<close>; the one test on a value,
  \<open>lazy[node] != 0\<close> in \<open>push\<close>, can differ, and where it does the machine skips
  an addition of a multiple of \<open>2 ^ 32\<close>.
\<close>

lemma bindE32_simps [simp]:
  "bindE32 (Ok32 x) f = f x" "bindE32 OutOfBounds32 f = OutOfBounds32"
  "bindE32 LengthError32 f = LengthError32"
  by (simp_all add: bindE32_def)

lemma bindR32_simps [simp]:
  "bindR32 (Some (Ok32 x)) g = g x" "bindR32 (Some OutOfBounds32) g = Some OutOfBounds32"
  "bindR32 (Some LengthError32) g = Some LengthError32" "bindR32 None g = None"
  by (simp_all add: bindR32_def)

lemma bindE_OkE:
  assumes "bindE m f = Ok y"
  obtains x where "m = Ok x" "f x = Ok y"
  using assms by (cases m) simp_all

lemma bindR_OkE:
  assumes "bindR m f = Some (Ok y)"
  obtains x where "m = Some (Ok x)" "f x = Some (Ok y)"
proof (cases m)
  case None
  with assms show ?thesis by simp
next
  case (Some v)
  with assms that show ?thesis by (cases v) simp_all
qed

lemma img_simps [simp]:
  "tree32 (img s) = map word_of_int (tree s)" "lazy32 (img s) = map word_of_int (lazy s)"
  "size_n32 (img s) = size_n s"
  by (simp_all add: img_def)

lemma tree_set_sim: "tree_set32 (img s) i (word_of_int v) = imgR (tree_set s i v)"
  by (simp add: tree_set32_def tree_set_def img_def map_update)

lemma tree_add_sim: "tree_add32 (img s) i (word_of_int d) = imgR (tree_add s i d)"
  by (simp add: tree_add32_def tree_add_def tree_get32_def tree_get_def tree_set32_def tree_set_def
      img_def map_update)

lemma lazy_add_sim: "lazy_add32 (img s) i (word_of_int d) = imgR (lazy_add s i d)"
  by (simp add: lazy_add32_def lazy_add_def lazy_get32_def lazy_get_def lazy_set32_def lazy_set_def
      img_def map_update)

lemma tree_add_unchanged:
  assumes "tree_add s i d = Ok s'" "(word_of_int d :: int32) = 0"
  shows "img s' = img s"
  using assms
  by (auto simp: tree_add_def tree_get_def tree_set_def img_def map_update list_update_same_conv
      split: if_splits)

lemma lazy_add_unchanged:
  assumes "lazy_add s i d = Ok s'" "(word_of_int d :: int32) = 0"
  shows "img s' = img s"
  using assms
  by (auto simp: lazy_add_def lazy_get_def lazy_set_def img_def map_update list_update_same_conv
      split: if_splits)

lemma lazy_set_unchanged:
  assumes "lazy_set s i 0 = Ok s'" "(word_of_int (lazy s ! i) :: int32) = 0"
  shows "img s' = img s"
  using assms
  by (auto simp: lazy_set_def img_def map_update list_update_same_conv split: if_splits)

lemma lazy_get_OkD: "lazy_get s i = Ok z \<Longrightarrow> i < length (lazy s) \<and> z = lazy s ! i"
  by (auto simp: lazy_get_def split: if_splits)

lemma push_sim_nz:
  assumes "push s node a b = Ok s'" "(word_of_int (lazy s ! node) :: int32) \<noteq> 0"
  shows "push32 (img s) node a b = Ok32 (img s')"
  using assms
  by (auto simp: push_def push32_def lazy_get_def lazy_get32_def lazy_set_def lazy_set32_def
      tree_add_def tree_add32_def tree_get_def tree_get32_def tree_set_def tree_set32_def
      lazy_add_def lazy_add32_def img_def map_update nth_list_update
      split: if_splits)

lemma word_same:
  assumes "img s1 = img s" "lazy_get s1 i = Ok z1"
  shows "(word_of_int z1 :: int32) = word_of_int (lazy s ! i)"
proof -
  from assms(2) have i: "i < length (lazy s1)" and z: "z1 = lazy s1 ! i"
    by (simp_all add: lazy_get_OkD)
  have "lazy32 (img s1) ! i = word_of_int z1" using i z by simp
  moreover have "i < length (lazy s)" using i arg_cong [OF assms(1), of lazy32] 
    by (metis img_simps(2) length_map)
  then have "lazy32 (img s) ! i = word_of_int (lazy s ! i)" by simp
  ultimately show ?thesis using assms(1) by simp
qed

lemma push_sim_z:
  assumes "push s node a b = Ok s'" "(word_of_int (lazy s ! node) :: int32) = 0"
  shows "img s' = img s"
proof (cases "lazy s ! node = 0")
  case True
  with assms(1) show ?thesis by (auto simp: push_def lazy_get_def split: if_splits)
next
  case False
  from assms(1) have n: "node < length (lazy s)"
    by (auto simp: push_def lazy_get_def split: if_splits)
  with assms(1) False obtain s1 s3 where
    t: "tree_add s node (lazy s ! node * (b - a + 1)) = Ok s1"
    and m: "(if a \<noteq> b then
               bindE (lazy_get s1 node) (\<lambda>z2.
               bindE (lazy_add s1 (2 * node) z2) (\<lambda>s2.
               bindE (lazy_get s2 node) (\<lambda>z3.
               lazy_add s2 (2 * node + 1) z3)))
             else Ok s1) = Ok s3"
    and c: "lazy_set s3 node 0 = Ok s'"
    by (auto simp: push_def lazy_get_def elim!: bindE_OkE)
  have i1: "img s1 = img s"
    using t by (rule tree_add_unchanged) (simp add: assms(2))
  have i3: "img s3 = img s"
  proof (cases "a = b")
    case True
    with m i1 show ?thesis by simp
  next
    case False
    with m obtain z2 s2 z3 where g2: "lazy_get s1 node = Ok z2"
      and a2: "lazy_add s1 (2 * node) z2 = Ok s2" and g3: "lazy_get s2 node = Ok z3"
      and a3: "lazy_add s2 (2 * node + 1) z3 = Ok s3"
      by (auto elim!: bindE_OkE)
    have "(word_of_int z2 :: int32) = 0" using word_same [OF i1 g2] assms(2) by simp
    with a2 have i2: "img s2 = img s1" by (rule lazy_add_unchanged)
    then have i2': "img s2 = img s" using i1 by simp
    have "(word_of_int z3 :: int32) = 0" using word_same [OF i2' g3] assms(2) by simp
    with a3 have "img s3 = img s2" by (rule lazy_add_unchanged)
    with i2' show ?thesis by simp
  qed
  from c have "lazy_get s3 node = Ok (lazy s3 ! node)"
    by (auto simp: lazy_set_def lazy_get_def split: if_splits)
  from word_same [OF i3 this] have "(word_of_int (lazy s3 ! node) :: int32) = 0"
    using assms(2) by simp
  with c have "img s' = img s3" by (rule lazy_set_unchanged)
  with i3 show ?thesis by simp
qed

lemma push_sim:
  assumes "push s node a b = Ok s'"
  shows "push32 (img s) node a b = Ok32 (img s')"
proof (cases "(word_of_int (lazy s ! node) :: int32) = 0")
  case False
  with assms show ?thesis by (rule push_sim_nz)
next
  case True
  from assms have "node < length (lazy s)"
    by (auto simp: push_def lazy_get_def split: if_splits)
  then have "push32 (img s) node a b = Ok32 (img s)"
    using True by (simp add: push32_def lazy_get32_def)
  then show ?thesis using push_sim_z [OF assms True] by simp
qed

text \<open>The three recursions, by induction on \<open>end - start\<close>.\<close>

lemma recombine_sim:
  assumes "bindE (tree_get s (2 * node)) (\<lambda>a. bindE (tree_get s (2 * node + 1)) (\<lambda>b.
             tree_set s node (a + b))) = Ok s'"
  shows "bindE32 (tree_get32 (img s) (2 * node)) (\<lambda>a. bindE32 (tree_get32 (img s) (2 * node + 1)) (\<lambda>b.
             tree_set32 (img s) node (a + b))) = Ok32 (img s')"
  using assms
  by (auto simp: tree_get_def tree_get32_def tree_set_def tree_set32_def img_def map_update
      split: if_splits)

lemma contained_sim:
  assumes "bindE (tree_add s0 node (val * len)) (\<lambda>s1.
             if c then bindE (lazy_add s1 (2 * node) val) (\<lambda>s2. lazy_add s2 (2 * node + 1) val)
             else Ok s1) = Ok s'"
  shows "bindE32 (tree_add32 (img s0) node (word_of_int val * word_of_int len)) (\<lambda>s1.
             if c then bindE32 (lazy_add32 s1 (2 * node) (word_of_int val))
                        (\<lambda>s2. lazy_add32 s2 (2 * node + 1) (word_of_int val))
             else Ok32 s1) = Ok32 (img s')"
proof -
  from assms obtain s1 where t: "tree_add s0 node (val * len) = Ok s1"
    and r: "(if c then bindE (lazy_add s1 (2 * node) val) (\<lambda>s2. lazy_add s2 (2 * node + 1) val)
             else Ok s1) = Ok s'"
    by (rule bindE_OkE)
  have t32: "tree_add32 (img s0) node (word_of_int val * word_of_int len) = Ok32 (img s1)"
    using tree_add_sim [of s0 node "val * len"] t by simp
  show ?thesis
  proof (cases c)
    case False
    with r t32 show ?thesis by simp
  next
    case True
    with r obtain s2 where l1: "lazy_add s1 (2 * node) val = Ok s2"
      and l2: "lazy_add s2 (2 * node + 1) val = Ok s'"
      by (auto elim!: bindE_OkE)
    have "lazy_add32 (img s1) (2 * node) (word_of_int val) = Ok32 (img s2)"
      using lazy_add_sim [of s1 "2 * node" val] l1 by simp
    moreover have "lazy_add32 (img s2) (2 * node + 1) (word_of_int val) = Ok32 (img s')"
      using lazy_add_sim [of s2 "2 * node + 1" val] l2 by simp
    ultimately show ?thesis using True t32 by simp
  qed
qed

lemma update_sim:
  "update_recursive s node a b l r val = Some (Ok s') \<Longrightarrow>
   update_recursive32 (img s) node a b l r (word_of_int val) = Some (Ok32 (img s'))"
proof (induction "nat (b - a)" arbitrary: s s' node a b rule: less_induct)
  case less
  from less.prems obtain s0 where p: "push s node a b = Ok s0"
    and rest: "(if a > b \<or> a > r \<or> b < l then Some (Ok s0)
       else if l \<le> a \<and> b \<le> r then
         Some (bindE (tree_add s0 node (val * (b - a + 1))) (\<lambda>s1.
               if a \<noteq> b then
                 bindE (lazy_add s1 (2 * node) val) (\<lambda>s2.
                 lazy_add s2 (2 * node + 1) val)
               else Ok s1))
       else
         bindR (update_recursive s0 (2 * node) a (midpoint a b) l r val) (\<lambda>s1.
         bindR (update_recursive s1 (2 * node + 1) (midpoint a b + 1) b l r val) (\<lambda>s2.
         Some (bindE (tree_get s2 (2 * node)) (\<lambda>x.
               bindE (tree_get s2 (2 * node + 1)) (\<lambda>y.
               tree_set s2 node (x + y))))))) = Some (Ok s')"
    by (subst (asm) update_recursive.simps) (erule bindR_OkE, simp)
  have p32: "push32 (img s) node a b = Ok32 (img s0)" using p by (rule push_sim)
  consider (disj) "a > b \<or> a > r \<or> b < l"
    | (cont) "\<not> (a > b \<or> a > r \<or> b < l)" "l \<le> a \<and> b \<le> r"
    | (part) "\<not> (a > b \<or> a > r \<or> b < l)" "\<not> (l \<le> a \<and> b \<le> r)" by blast
  then show ?case
  proof cases
    case disj
    with rest have "s' = s0" by simp
    with disj p32 show ?thesis by (subst update_recursive32.simps) simp
  next
    case cont
    with rest have "bindE (tree_add s0 node (val * (b - a + 1))) (\<lambda>s1.
               if a \<noteq> b then
                 bindE (lazy_add s1 (2 * node) val) (\<lambda>s2.
                 lazy_add s2 (2 * node + 1) val)
               else Ok s1) = Ok s'" by simp
    from contained_sim [OF this] cont p32 show ?thesis
      by (subst update_recursive32.simps) simp
  next
    case part
    then have lt: "a < b" by linarith
    have mb: "a \<le> midpoint a b" "midpoint a b < b" using midpoint_bounds [OF lt] by simp_all
    from rest part obtain s1 s2 where
      u1: "update_recursive s0 (2 * node) a (midpoint a b) l r val = Some (Ok s1)"
      and u2: "update_recursive s1 (2 * node + 1) (midpoint a b + 1) b l r val = Some (Ok s2)"
      and rc: "bindE (tree_get s2 (2 * node)) (\<lambda>x.
               bindE (tree_get s2 (2 * node + 1)) (\<lambda>y.
               tree_set s2 node (x + y))) = Ok s'"
      by (auto elim!: bindR_OkE)
    have m1: "nat (midpoint a b - a) < nat (b - a)" using mb lt by simp
    have m2: "nat (b - (midpoint a b + 1)) < nat (b - a)" using mb lt by simp
    note h1 = less.hyps [OF m1 u1]
    note h2 = less.hyps [OF m2 u2]
    note h3 = recombine_sim [OF rc]
    show ?thesis
      using p32 h1 h2 h3 by (subst update_recursive32.simps) (simp add: part)
  qed
qed

lemma query_sim:
  "query_recursive s node a b l r = Some (Ok (v, s')) \<Longrightarrow>
   query_recursive32 (img s) node a b l r = Some (Ok32 (word_of_int v, img s'))"
proof (induction "nat (b - a)" arbitrary: s s' v node a b rule: less_induct)
  case less
  show ?case
  proof (cases "a > b \<or> a > r \<or> b < l")
    case True
    with less.prems have "v = 0" "s' = s" by (subst (asm) query_recursive.simps, simp)+
    with True show ?thesis by (subst query_recursive32.simps) simp
  next
    case False
    with less.prems obtain s0 where p: "push s node a b = Ok s0"
      and rest: "(if l \<le> a \<and> b \<le> r then Some (bindE (tree_get s0 node) (\<lambda>t. Ok (t, s0)))
          else
            bindR (query_recursive s0 (2 * node) a (midpoint a b) l r) (\<lambda>(p1, s1).
            bindR (query_recursive s1 (2 * node + 1) (midpoint a b + 1) b l r) (\<lambda>(p2, s2).
            Some (Ok (p1 + p2, s2))))) = Some (Ok (v, s'))"
      by (subst (asm) query_recursive.simps) (auto elim!: bindR_OkE)
    have p32: "push32 (img s) node a b = Ok32 (img s0)" using p by (rule push_sim)
    show ?thesis
    proof (cases "l \<le> a \<and> b \<le> r")
      case True
      with rest have "bindE (tree_get s0 node) (\<lambda>t. Ok (t, s0)) = Ok (v, s')" by simp
      then have "node < length (tree s0)" "v = tree s0 ! node" "s' = s0"
        by (auto simp: tree_get_def split: if_splits)
      then show ?thesis
        using False True p32 by (subst query_recursive32.simps) (simp add: tree_get32_def)
    next
      case part: False
      with False have lt: "a < b" by linarith
      have mb: "a \<le> midpoint a b" "midpoint a b < b" using midpoint_bounds [OF lt] by simp_all
      from rest part obtain p1 s1 p2 where
        q1: "query_recursive s0 (2 * node) a (midpoint a b) l r = Some (Ok (p1, s1))"
        and q2: "query_recursive s1 (2 * node + 1) (midpoint a b + 1) b l r = Some (Ok (p2, s'))"
        and v: "v = p1 + p2"
        by (auto elim!: bindR_OkE)
      have m1: "nat (midpoint a b - a) < nat (b - a)" using mb lt by simp
      have m2: "nat (b - (midpoint a b + 1)) < nat (b - a)" using mb lt by simp
      note h1 = less.hyps [OF m1 q1]
      note h2 = less.hyps [OF m2 q2]
      show ?thesis
        using p32 h1 h2 v by (subst query_recursive32.simps) (simp add: False part)
    qed
  qed
qed

lemma build_sim:
  "a \<le> b \<Longrightarrow> build_recursive arr s node a b = Some (Ok s') \<Longrightarrow>
   build_recursive32 (map word_of_int arr) (img s) node a b = Some (Ok32 (img s'))"
proof (induction "nat (b - a)" arbitrary: s s' node a b rule: less_induct)
  case less
  show ?case
  proof (cases "a = b")
    case True
    with less.prems(2) have "bindE (arr_get arr a) (\<lambda>v. tree_set s node v) = Ok s'"
      by (subst (asm) build_recursive.simps) simp
    then obtain v where g: "arr_get arr a = Ok v" and t: "tree_set s node v = Ok s'"
      by (rule bindE_OkE)
    from g have "arr_get32 (map word_of_int arr) a = Ok32 (word_of_int v)"
      by (auto simp: arr_get_def arr_get32_def split: if_splits)
    moreover have "tree_set32 (img s) node (word_of_int v) = Ok32 (img s')"
      using tree_set_sim [of s node v] t by simp
    ultimately show ?thesis using True by (subst build_recursive32.simps) simp
  next
    case False
    with less.prems(1) have lt: "a < b" by simp
    have mb: "a \<le> midpoint a b" "midpoint a b < b" using midpoint_bounds [OF lt] by simp_all
    from less.prems(2) False obtain s1 s2 where
      b1: "build_recursive arr s (2 * node) a (midpoint a b) = Some (Ok s1)"
      and b2: "build_recursive arr s1 (2 * node + 1) (midpoint a b + 1) b = Some (Ok s2)"
      and rc: "bindE (tree_get s2 (2 * node)) (\<lambda>x.
               bindE (tree_get s2 (2 * node + 1)) (\<lambda>y.
               tree_set s2 node (x + y))) = Ok s'"
      by (subst (asm) build_recursive.simps) (auto elim!: bindR_OkE)
    have m1: "nat (midpoint a b - a) < nat (b - a)" using mb lt by simp
    have m2: "nat (b - (midpoint a b + 1)) < nat (b - a)" using mb lt by simp
    have c2: "midpoint a b + 1 \<le> b" using mb by simp
    note h1 = less.hyps [OF m1 mb(1) b1]
    note h2 = less.hyps [OF m2 c2 b2]
    note h3 = recombine_sim [OF rc]
    show ?thesis
      using False h1 h2 h3 by (subst build_recursive32.simps) simp
  qed
qed

text \<open>
  The constructor and the public functions. With \<open>4 * N \<le> 2147483647\<close> the \<open>n\<close>,
  \<open>4 * n\<close> and \<open>n - 1\<close> of the constructor are the integers themselves.
\<close>

lemma to_int32_id: "- 2147483648 \<le> x \<Longrightarrow> x \<le> 2147483647 \<Longrightarrow> to_int32 x = x"
  unfolding to_int32_def by (simp add: int_word_sint)

lemma map_word_sint [simp]: "map word_of_int (map sint W) = (W :: int32 list)"
  by (simp add: map_idI)

lemma SegmentTree_sim:
  assumes "4 * int (length A) \<le> 2147483647" "SegmentTree A = Some (Ok s)"
  shows "SegmentTree32 (map word_of_int A) = Some (Ok32 (img s))"
proof (cases "A = []")
  case True
  with assms(2) show ?thesis
    by (auto simp: SegmentTree_def SegmentTree32_def to_int32_def img_def)
next
  case False
  define n where "n = int (length A)"
  have n1: "1 \<le> n" using False by (cases A) (simp_all add: n_def)
  have n2: "4 * n \<le> 2147483647" using assms(1) by (simp add: n_def)
  have t1: "to_int32 n = n" using n1 n2 by (intro to_int32_id) simp_all
  have t4: "to_int32 (4 * n) = 4 * n" using n1 n2 by (intro to_int32_id) simp_all
  have tm: "to_int32 (n - 1) = n - 1" using n1 n2 by (intro to_int32_id) simp_all
  have k: "nat (4 * n) = 4 * length A" by (simp add: n_def)
  let ?s0 = "\<lparr>tree = replicate (4 * length A) 0, lazy = replicate (4 * length A) 0, size_n = n\<rparr>"
  from assms(2) False have b: "build_recursive A ?s0 ROOT_NODE 0 (n - 1) = Some (Ok s)"
    by (simp add: SegmentTree_def n_def)
  have "build_recursive32 (map word_of_int A) (img ?s0) ROOT_NODE 0 (n - 1) = Some (Ok32 (img s))"
    using n1 b by (intro build_sim) simp_all
  moreover have "img ?s0 = \<lparr>tree32 = replicate (4 * length A) 0, lazy32 = replicate (4 * length A) 0,
                          size_n32 = n\<rparr>"
    by (simp add: img_def)
  ultimately show ?thesis
    using n1 n2 by (simp add: SegmentTree32_def Let_def n_def [symmetric] t1 t4 tm k)
qed

lemma updateRange_sim:
  assumes "updateRange s l r val = Some (Ok s')"
  shows "updateRange32 (img s) l r (word_of_int val) = Some (Ok32 (img s'))"
proof (cases "size_n s = 0 \<or> l < 0 \<or> r \<ge> size_n s \<or> l > r")
  case True
  with assms show ?thesis by (auto simp: updateRange_def updateRange32_def)
next
  case False
  with assms have "update_recursive s ROOT_NODE 0 (size_n s - 1) l r val = Some (Ok s')"
    by (simp add: updateRange_def)
  from update_sim [OF this] False show ?thesis by (simp add: updateRange32_def)
qed

lemma queryRange_sim:
  assumes "queryRange s l r = Some (Ok (v, s'))"
  shows "queryRange32 (img s) l r = Some (Ok32 (word_of_int v, img s'))"
proof (cases "size_n s = 0 \<or> l < 0 \<or> r \<ge> size_n s \<or> l > r")
  case True
  with assms show ?thesis by (auto simp: queryRange_def queryRange32_def)
next
  case False
  with assms have "query_recursive s ROOT_NODE 0 (size_n s - 1) l r = Some (Ok (v, s'))"
    by (simp add: queryRange_def)
  from query_sim [OF this] False show ?thesis by (simp add: queryRange32_def)
qed

lemma run_sim:
  "run s (map op_of32 ops) = Some (Ok s') \<Longrightarrow> run32 (img s) ops = Some (Ok32 (img s'))"
proof (induction ops arbitrary: s)
  case Nil
  then show ?case by simp
next
  case (Cons x ops)
  show ?case
  proof (cases x)
    case (UpdateRange32 l r val)
    with Cons.prems obtain s1 where u: "updateRange s l r (sint val) = Some (Ok s1)"
      and r: "run s1 (map op_of32 ops) = Some (Ok s')"
      by (auto elim!: bindR_OkE)
    from updateRange_sim [OF u] Cons.IH [OF r] UpdateRange32 show ?thesis by simp
  next
    case (QueryRange32 l r)
    with Cons.prems obtain v s1 where q: "queryRange s l r = Some (Ok (v, s1))"
      and r: "run s1 (map op_of32 ops) = Some (Ok s')"
      by (auto elim!: bindR_OkE)
    from queryRange_sim [OF q] Cons.IH [OF r] QueryRange32 show ?thesis by simp
  qed
qed

lemma after_sim:
  assumes "4 * int (length W) \<le> 2147483647"
    and "after (map sint W) (map op_of32 ops) = Some (Ok s)"
  shows "after32 W ops = Some (Ok32 (img s))"
proof -
  from assms(2) obtain s0 where c: "SegmentTree (map sint W) = Some (Ok s0)"
    and r: "run s0 (map op_of32 ops) = Some (Ok s)"
    unfolding after_def by (rule bindR_OkE)
  have "SegmentTree32 (map word_of_int (map sint W)) = Some (Ok32 (img s0))"
    using assms(1) c by (intro SegmentTree_sim) simp_all
  then have "SegmentTree32 W = Some (Ok32 (img s0))" by (simp only: map_word_sint)
  then show ?thesis using run_sim [OF r] by (simp add: after32_def)
qed

text \<open>The mirror array, the range sums and the pending deltas of the ancestors.\<close>

lemma mirror_update_sim:
  "mirror_update32 (map word_of_int M) l r (word_of_int d) = map word_of_int (mirror_update M l r d)"
  by (simp add: mirror_update32_def mirror_update_def)

lemma mirror_sim:
  "mirror32 (map word_of_int M) ops = map word_of_int (mirror M (map op_of32 ops))"
proof (induction ops arbitrary: M)
  case Nil
  then show ?case by simp
next
  case (Cons x ops)
  show ?case
  proof (cases x)
    case (UpdateRange32 l r val)
    then show ?thesis
      using Cons.IH [of "mirror_update M l r (sint val)"] mirror_update_sim [of M l r "sint val"]
      by simp
  next
    case (QueryRange32 l r)
    then show ?thesis using Cons.IH [of M] by simp
  qed
qed

lemma word_of_int_sum_list: "(word_of_int (sum_list xs) :: int32) = sum_list (map word_of_int xs)"
  by (induction xs) simp_all

lemma range_sum_sim:
  assumes "0 \<le> l" "r < int (length M)"
  shows "range_sum32 (map word_of_int M) l r = word_of_int (range_sum M l r)"
proof -
  have "map (\<lambda>i. map word_of_int M ! nat i) [l..r] = map (\<lambda>i. (word_of_int (M ! nat i) :: int32)) [l..r]"
    using assms by (intro map_cong) auto
  then have "range_sum32 (map word_of_int M) l r = (\<Sum>i\<leftarrow>[l..r]. word_of_int (M ! nat i))"
    unfolding range_sum32_def by (rule arg_cong)
  then show ?thesis
    by (simp add: range_sum_def word_of_int_sum_list comp_def)
qed

lemma anc_lazy_sim:
  "node < length (lazy s) \<Longrightarrow> anc_lazy32 (img s) node = word_of_int (anc_lazy s node)"
proof (induction node rule: less_induct)
  case (less node)
  show ?case
  proof (cases "node \<le> 1")
    case True
    then show ?thesis by (subst anc_lazy32.simps, subst anc_lazy.simps) simp
  next
    case False
    then have d: "node div 2 < node" "node div 2 < length (lazy s)" using less.prems by simp_all
    from less.IH [OF d] d(2) False show ?thesis
      by (subst anc_lazy32.simps, subst anc_lazy.simps) simp
  qed
qed

text \<open>On an empty \<open>tree\<close> vector the first write of \<open>build_recursive\<close> is out of bounds.\<close>

lemma build_empty_tree:
  "tree32 s = [] \<Longrightarrow> a \<le> b \<Longrightarrow> build_recursive32 arr s node a b = Some OutOfBounds32"
proof (induction "nat (b - a)" arbitrary: node a b rule: less_induct)
  case less
  show ?case
  proof (cases "a = b")
    case True
    then show ?thesis
      using less.prems(1)
      by (subst build_recursive32.simps) (simp add: arr_get32_def tree_set32_def)
  next
    case False
    with less.prems(2) have lt: "a < b" by simp
    have mb: "a \<le> midpoint a b" "midpoint a b < b" using midpoint_bounds [OF lt] by simp_all
    have m1: "nat (midpoint a b - a) < nat (b - a)" using mb lt by simp
    from less.hyps [OF m1 less.prems(1) mb(1)] False show ?thesis
      by (subst build_recursive32.simps) simp
  qed
qed

lemma sum_list_word_sint: "sum_list (W :: int32 list) = word_of_int (sum_list (map sint W))"
  by (simp add: word_of_int_sum_list comp_def)

section \<open>The claims\<close>

text \<open>
  Claim C1. For every initial array \<open>A\<close> and every sequence of \<open>updateRange\<close> and
  \<open>queryRange\<close> calls, the sequence runs without error, and a \<open>queryRange l r\<close> with a
  valid range then returns the sum over \<open>l..r\<close> of the mirror array, in which every earlier
  valid update added its delta to the indices of its range and invalid updates changed
  nothing.
\<close>

theorem queryRange_refines_mirror:
  "\<exists>s. after A ops = Some (Ok s) \<and>
       (0 \<le> l \<and> l \<le> r \<and> r < int (length A) \<longrightarrow>
        (\<exists>s'. queryRange s l r = Some (Ok (range_sum (mirror A ops) l r, s'))))"
proof -
  from after_spec [of A ops] obtain s where s: "after A ops = Some (Ok s)" "state_ok s"
    "size_n s = int (length A)" "contents s = mirror A ops" by blast
  from queryRange_spec [OF s(2), of l r] show ?thesis using s by auto
qed

theorem queryRange_refines_mirror_witness:
  "(0::int) \<le> 1 \<and> (1::int) \<le> 3 \<and> (3::int) < int (length [1, 2, 3, 4, 5 :: int]) \<and>
   (\<exists>s. after [1, 2, 3, 4, 5] [UpdateRange 1 3 10, QueryRange 0 1, UpdateRange 2 5 7] = Some (Ok s) \<and>
        (\<exists>s'. queryRange s 1 3 = Some (Ok (39, s'))))"
proof -
  have "range_sum (mirror [1, 2, 3, 4, 5] [UpdateRange 1 3 10, QueryRange 0 1, UpdateRange 2 5 7]) 1 3 = 39"
    by code_simp
  then show ?thesis
    using queryRange_refines_mirror
      [of "[1, 2, 3, 4, 5]" "[UpdateRange 1 3 10, QueryRange 0 1, UpdateRange 2 5 7]" 1 3]
    by simp
qed

text \<open>
  Claim C2. In every state reached from the constructor by a sequence of calls, for every
  valid \<open>(l, r)\<close> and every \<open>delta\<close>: after \<open>updateRange l r delta\<close>,
  \<open>queryRange l r\<close> returns its value before the update plus
  \<open>delta * (r - l + 1)\<close>, and \<open>queryRange a b\<close> for every valid range disjoint from
  \<open>[l, r]\<close> returns the same value as before.
\<close>

theorem update_query_consistency:
  "after A ops = Some (Ok s) \<Longrightarrow> 0 \<le> l \<Longrightarrow> l \<le> r \<Longrightarrow> r < int (length A) \<Longrightarrow>
   \<exists>s1. updateRange s l r delta = Some (Ok s1) \<and>
     (\<exists>q t t1. queryRange s l r = Some (Ok (q, t)) \<and>
               queryRange s1 l r = Some (Ok (q + delta * (r - l + 1), t1))) \<and>
     (\<forall>a b. 0 \<le> a \<and> a \<le> b \<and> b < int (length A) \<and> (b < l \<or> r < a) \<longrightarrow>
        (\<exists>q t t1. queryRange s a b = Some (Ok (q, t)) \<and> queryRange s1 a b = Some (Ok (q, t1))))"
proof -
  assume r: "after A ops = Some (Ok s)" and v': "0 \<le> l" "l \<le> r" "r < int (length A)"
  from after_spec [of A ops] r have ok: "state_ok s" and szA: "size_n s = int (length A)" by auto
  from v' have v: "0 \<le> l" "l \<le> r" "r < size_n s" by (simp_all add: szA)
  from updateRange_spec [OF ok, of l r delta] obtain s1 where
    u: "updateRange s l r delta = Some (Ok s1)" and ok1: "state_ok s1" and sz: "size_n s1 = size_n s"
    and c: "contents s1 = mirror_update (contents s) l r delta" by blast
  have len: "r < int (length (contents s))" using v by simp
  have "\<exists>q t t1. queryRange s l r = Some (Ok (q, t)) \<and>
               queryRange s1 l r = Some (Ok (q + delta * (r - l + 1), t1))"
    using queryRange_spec [OF ok, of l r] queryRange_spec [OF ok1, of l r] v
    by (auto simp: sz c range_sum_update_same [OF v(1,2) len])
  moreover have "\<exists>q t t1. queryRange s a b = Some (Ok (q, t)) \<and> queryRange s1 a b = Some (Ok (q, t1))"
    if "0 \<le> a \<and> a \<le> b \<and> b < int (length A) \<and> (b < l \<or> r < a)" for a b
  proof -
    from that have that: "0 \<le> a \<and> a \<le> b \<and> b < size_n s \<and> (b < l \<or> r < a)"
      by (simp add: szA)
    have "range_sum (mirror_update (contents s) l r delta) a b = range_sum (contents s) a b"
      by (rule range_sum_update_disjoint) (use that in auto)
    then show ?thesis
      using queryRange_spec [OF ok, of a b] queryRange_spec [OF ok1, of a b] that
      by (auto simp: sz c)
  qed
  ultimately show ?thesis using u by blast
qed

theorem update_query_consistency_witness:
  "after [1, 2, 3] [UpdateRange 0 1 5] =
     Some (Ok \<lparr>tree = [0, 16, 13, 3, 1, 2, 0, 0, 0, 0, 0, 0],
               lazy = [0, 0, 0, 0, 5, 5, 0, 0, 0, 0, 0, 0], size_n = 3\<rparr>) \<and>
   (0::int) \<le> 0 \<and> (0::int) \<le> 1 \<and> 1 < int (length [1, 2, 3 :: int]) \<and>
   (0::int) \<le> 2 \<and> (2::int) \<le> 2 \<and> 2 < int (length [1, 2, 3 :: int]) \<and> (1::int) < 2 \<and>
   (\<exists>s1 q t t1 q' t' t1'.
      updateRange \<lparr>tree = [0, 16, 13, 3, 1, 2, 0, 0, 0, 0, 0, 0],
                   lazy = [0, 0, 0, 0, 5, 5, 0, 0, 0, 0, 0, 0], size_n = 3\<rparr> 0 1 2 = Some (Ok s1) \<and>
      queryRange \<lparr>tree = [0, 16, 13, 3, 1, 2, 0, 0, 0, 0, 0, 0],
                  lazy = [0, 0, 0, 0, 5, 5, 0, 0, 0, 0, 0, 0], size_n = 3\<rparr> 0 1 = Some (Ok (q, t)) \<and>
      queryRange s1 0 1 = Some (Ok (q + 2 * (1 - 0 + 1), t1)) \<and>
      queryRange \<lparr>tree = [0, 16, 13, 3, 1, 2, 0, 0, 0, 0, 0, 0],
                  lazy = [0, 0, 0, 0, 5, 5, 0, 0, 0, 0, 0, 0], size_n = 3\<rparr> 2 2 = Some (Ok (q', t')) \<and>
      queryRange s1 2 2 = Some (Ok (q', t1')))"
proof -
  have h: "after [1, 2, 3] [UpdateRange 0 1 5] =
     Some (Ok \<lparr>tree = [0, 16, 13, 3, 1, 2, 0, 0, 0, 0, 0, 0],
               lazy = [0, 0, 0, 0, 5, 5, 0, 0, 0, 0, 0, 0], size_n = 3\<rparr>)"
    by code_simp
  from update_query_consistency [OF h, of 0 1 2] obtain s1 where
    u: "updateRange \<lparr>tree = [0, 16, 13, 3, 1, 2, 0, 0, 0, 0, 0, 0],
                   lazy = [0, 0, 0, 0, 5, 5, 0, 0, 0, 0, 0, 0], size_n = 3\<rparr> 0 1 2 = Some (Ok s1)"
    and q: "\<exists>q t t1.
      queryRange \<lparr>tree = [0, 16, 13, 3, 1, 2, 0, 0, 0, 0, 0, 0],
                  lazy = [0, 0, 0, 0, 5, 5, 0, 0, 0, 0, 0, 0], size_n = 3\<rparr> 0 1 = Some (Ok (q, t)) \<and>
      queryRange s1 0 1 = Some (Ok (q + 2 * (1 - 0 + 1), t1))"
    and d: "\<forall>a b. 0 \<le> a \<and> a \<le> b \<and> b < int (length [1, 2, 3 :: int]) \<and> (b < 0 \<or> 1 < a) \<longrightarrow>
      (\<exists>q t t1.
        queryRange \<lparr>tree = [0, 16, 13, 3, 1, 2, 0, 0, 0, 0, 0, 0],
                    lazy = [0, 0, 0, 0, 5, 5, 0, 0, 0, 0, 0, 0], size_n = 3\<rparr> a b = Some (Ok (q, t)) \<and>
        queryRange s1 a b = Some (Ok (q, t1)))"
    by auto
  from d [rule_format, of 2 2] have "\<exists>q t t1.
        queryRange \<lparr>tree = [0, 16, 13, 3, 1, 2, 0, 0, 0, 0, 0, 0],
                    lazy = [0, 0, 0, 0, 5, 5, 0, 0, 0, 0, 0, 0], size_n = 3\<rparr> 2 2 = Some (Ok (q, t)) \<and>
        queryRange s1 2 2 = Some (Ok (q, t1))"
    by simp
  with h u q show ?thesis by auto
qed

text \<open>
  Claim C3 says that the aggregate of a node already contains the node's own pending
  delta, so that the sum of the represented array over the node's range \<open>[s, e]\<close> is
  \<open>aggregate[node]\<close> plus \<open>(e - s + 1)\<close> times the pending deltas of the proper
  ancestors. The code keeps the node's own pending delta out of its aggregate until
  \<open>push\<close> adds it: after building from \<open>[1, 2]\<close> and \<open>updateRange 0 1 5\<close>, node 2
  covers \<open>[0, 0]\<close>, the represented value is 6, \<open>tree[2]\<close> is 1, \<open>lazy[2]\<close> is 5 and
  the root has no pending delta.
\<close>

theorem node_sum_counterexample:
  "after32 [1, 2] [UpdateRange32 0 1 5] =
     Some (Ok32 \<lparr>tree32 = [0, 13, 1, 2, 0, 0, 0, 0], lazy32 = [0, 0, 5, 5, 0, 0, 0, 0],
                 size_n32 = 2\<rparr>) \<and>
   node_range 2 2 0 0 \<and>
   anc_lazy32 \<lparr>tree32 = [0, 13, 1, 2, 0, 0, 0, 0], lazy32 = [0, 0, 5, 5, 0, 0, 0, 0],
               size_n32 = 2\<rparr> 2 = 0 \<and>
   range_sum32 (mirror32 [1, 2] [UpdateRange32 0 1 5]) 0 0 = 6 \<and>
   tree32 \<lparr>tree32 = [0, 13, 1, 2, 0, 0, 0, 0], lazy32 = [0, 0, 5, 5, 0, 0, 0, 0],
           size_n32 = 2\<rparr> ! 2 = 1 \<and>
   range_sum32 (mirror32 [1, 2] [UpdateRange32 0 1 5]) 0 0 \<noteq>
     tree32 \<lparr>tree32 = [0, 13, 1, 2, 0, 0, 0, 0], lazy32 = [0, 0, 5, 5, 0, 0, 0, 0],
             size_n32 = 2\<rparr> ! 2 +
     word_of_int (0 - 0 + 1) *
     anc_lazy32 \<lparr>tree32 = [0, 13, 1, 2, 0, 0, 0, 0], lazy32 = [0, 0, 5, 5, 0, 0, 0, 0],
                 size_n32 = 2\<rparr> 2"
proof -
  have a: "after32 [1, 2] [UpdateRange32 0 1 5] =
     Some (Ok32 \<lparr>tree32 = [0, 13, 1, 2, 0, 0, 0, 0], lazy32 = [0, 0, 5, 5, 0, 0, 0, 0],
                 size_n32 = 2\<rparr>)"
    by code_simp
  have r0: "node_range 2 ROOT_NODE 0 (2 - 1)" by (rule node_range.root) simp
  have "node_range 2 (2 * ROOT_NODE) 0 (midpoint 0 (2 - 1))"
    by (rule node_range.left [OF r0]) simp
  then have n: "node_range 2 2 0 0"
    by (simp add: ROOT_NODE_def midpoint_def signed_divide_int_def)
  have v: "range_sum32 (mirror32 [1, 2] [UpdateRange32 0 1 5]) 0 0 = 6" by code_simp
  have z: "anc_lazy32 \<lparr>tree32 = [0, 13, 1, 2, 0, 0, 0, 0], lazy32 = [0, 0, 5, 5, 0, 0, 0, 0],
               size_n32 = 2\<rparr> 2 = 0"
    by code_simp
  show ?thesis using a n v z by simp
qed

text \<open>
  Claim C3, as the code has it. In every state reached from the constructor, on an array
  of size \<open>N\<close> with \<open>4 * N \<le> 2147483647\<close>, by a sequence of calls, for every node with
  range \<open>[start, end]\<close>: in the 32-bit arithmetic of the code, the sum of the represented
  array over the range is \<open>tree[node]\<close> plus \<open>(end - start + 1)\<close> times the sum of the
  node's own pending delta and the pending deltas of its proper ancestors. When the node
  and its proper ancestors hold no pending delta, the sum is \<open>tree[node]\<close>. As long as
  no addition or multiplication of the code overflows, these are the sums and products of
  the integers.
\<close>

theorem node_sum_invariant:
  "after32 W ops = Some (Ok32 s) \<Longrightarrow> 4 * int (length W) \<le> 2147483647 \<Longrightarrow>
   node_range (int (length W)) node start end \<Longrightarrow>
   range_sum32 (mirror32 W ops) start end =
     tree32 s ! node + word_of_int (end - start + 1) * (lazy32 s ! node + anc_lazy32 s node)"
proof -
  assume r: "after32 W ops = Some (Ok32 s)" and sz: "4 * int (length W) \<le> 2147483647"
    and nr: "node_range (int (length W)) node start end"
  define A where "A = map sint W"
  define n where "n = int (length A)"
  have len: "length A = length W" by (simp add: A_def)
  have AW: "map word_of_int A = W" by (simp only: A_def map_word_sint)
  from after_spec [of A "map op_of32 ops"] obtain s0 where
    s0: "after A (map op_of32 ops) = Some (Ok s0)" "state_ok s0" "size_n s0 = n"
    "length (tree s0) = 4 * length A" "length (lazy s0) = 4 * length A"
    by (auto simp: n_def)
  have "after32 W ops = Some (Ok32 (img s0))"
    using after_sim [OF sz] s0(1) by (simp only: A_def)
  with r have s: "s = img s0" by simp
  from nr have nr': "node_range n node start end" by (simp add: n_def len)
  have n1: "1 \<le> n" using nr' by (induction rule: node_range.induct) simp_all
  have ok: "subtree_ok s0 1 0 (n - 1)" using s0(2,3) n1 by (simp add: state_ok_def)
  note sp = node_range_spec [OF nr' ok]
  have ab: "0 \<le> start" "end \<le> n - 1" and okn: "subtree_ok s0 node start end" using sp by simp_all
  have nb: "node < length (tree s0)" "node < length (lazy s0)"
    using subtree_ok_bounds [OF okn] by simp_all
  from nr have nrA: "node_range (int (length A)) node start end" by (simp only: len)
  note inv = node_sum_int [OF s0(1) nrA]
  have "range_sum32 (mirror32 W ops) start end =
        range_sum32 (map word_of_int (mirror A (map op_of32 ops))) start end"
    using mirror_sim [of A ops] by (simp only: AW)
  also have "\<dots> = word_of_int (range_sum (mirror A (map op_of32 ops)) start end)"
    using ab by (intro range_sum_sim) (simp_all add: length_mirror n_def)
  also have "\<dots> = word_of_int (tree s0 ! node +
                 (end - start + 1) * (lazy s0 ! node + anc_lazy s0 node))"
    by (simp only: inv)
  also have "\<dots> = tree32 s ! node +
                 word_of_int (end - start + 1) * (lazy32 s ! node + anc_lazy32 s node)"
    using nb by (simp add: s anc_lazy_sim)
  finally show ?thesis .
qed

theorem node_sum_invariant_witness:
  "after32 [1, 2] [UpdateRange32 0 1 5] =
     Some (Ok32 \<lparr>tree32 = [0, 13, 1, 2, 0, 0, 0, 0], lazy32 = [0, 0, 5, 5, 0, 0, 0, 0],
                 size_n32 = 2\<rparr>) \<and>
   4 * int (length [1, 2 :: int32]) \<le> 2147483647 \<and>
   node_range (int (length [1, 2 :: int32])) 2 0 0 \<and>
   range_sum32 (mirror32 [1, 2] [UpdateRange32 0 1 5]) 0 0 = 1 + word_of_int (0 - 0 + 1) * (5 + 0)"
proof -
  have a: "after32 [1, 2] [UpdateRange32 0 1 5] =
     Some (Ok32 \<lparr>tree32 = [0, 13, 1, 2, 0, 0, 0, 0], lazy32 = [0, 0, 5, 5, 0, 0, 0, 0],
                 size_n32 = 2\<rparr>)"
    by code_simp
  have h: "4 * int (length [1, 2 :: int32]) \<le> 2147483647" by simp
  have r0: "node_range 2 ROOT_NODE 0 (2 - 1)" by (rule node_range.root) simp
  have "node_range 2 (2 * ROOT_NODE) 0 (midpoint 0 (2 - 1))"
    by (rule node_range.left [OF r0]) simp
  then have n: "node_range (int (length [1, 2 :: int32])) 2 0 0"
    by (simp add: ROOT_NODE_def midpoint_def signed_divide_int_def)
  have z: "anc_lazy32 \<lparr>tree32 = [0, 13, 1, 2, 0, 0, 0, 0], lazy32 = [0, 0, 5, 5, 0, 0, 0, 0],
               size_n32 = 2\<rparr> 2 = 0"
    by code_simp
  from node_sum_invariant [OF a h n] z show ?thesis using a n by simp
qed

text \<open>
  Claim C4. In every state, for every \<open>(l, r)\<close> with \<open>n = 0\<close> or \<open>l < 0\<close> or
  \<open>r \<ge> n\<close> or \<open>l > r\<close>, \<open>updateRange\<close> returns the state unchanged and without error,
  and \<open>queryRange\<close> returns 0 and the state unchanged; on the tree built from the empty
  array this holds for every range.
\<close>

theorem invalid_range_is_noop:
  "(size_n s = 0 \<or> l < 0 \<or> r \<ge> size_n s \<or> l > r \<longrightarrow>
      updateRange s l r delta = Some (Ok s) \<and> queryRange s l r = Some (Ok (0, s))) \<and>
   (\<exists>e. SegmentTree [] = Some (Ok e) \<and>
        updateRange e l' r' delta' = Some (Ok e) \<and> queryRange e l' r' = Some (Ok (0, e)))"
  by (simp add: updateRange_def queryRange_def SegmentTree_def)

theorem invalid_range_is_noop_witness:
  "(3::int) \<le> 5 \<and>
   updateRange \<lparr>tree = [0, 6, 3, 3, 1, 2, 0, 0, 0, 0, 0, 0], lazy = [0, 0, 0, 0, 0, 0, 0, 0, 0, 0, 0, 0],
                size_n = 3\<rparr> 2 5 5 =
     Some (Ok \<lparr>tree = [0, 6, 3, 3, 1, 2, 0, 0, 0, 0, 0, 0], lazy = [0, 0, 0, 0, 0, 0, 0, 0, 0, 0, 0, 0],
               size_n = 3\<rparr>) \<and>
   queryRange \<lparr>tree = [0, 6, 3, 3, 1, 2, 0, 0, 0, 0, 0, 0], lazy = [0, 0, 0, 0, 0, 0, 0, 0, 0, 0, 0, 0],
                size_n = 3\<rparr> 2 5 =
     Some (Ok (0, \<lparr>tree = [0, 6, 3, 3, 1, 2, 0, 0, 0, 0, 0, 0], lazy = [0, 0, 0, 0, 0, 0, 0, 0, 0, 0, 0, 0],
               size_n = 3\<rparr>))"
  using invalid_range_is_noop
    [of "\<lparr>tree = [0, 6, 3, 3, 1, 2, 0, 0, 0, 0, 0, 0], lazy = [0, 0, 0, 0, 0, 0, 0, 0, 0, 0, 0, 0],
          size_n = 3\<rparr>" 2 5 5]
  by simp

text \<open>
  Claim C5 says that right after the construction from a non-empty array \<open>A\<close> the query
  of the whole array is the sum of the elements of \<open>A\<close>. The code adds in \<open>int\<close>
  (\<open>tree[node] = tree[2 * node] + tree[2 * node + 1]\<close> in \<open>build_recursive\<close>): built
  from \<open>[2147483647, 1]\<close>, the root holds the wrapped sum, and \<open>queryRange 0 1\<close>
  returns \<open>-2147483648\<close>, whereas the sum of the elements is \<open>2147483648\<close>.
\<close>

theorem build_sum_counterexample:
  "SegmentTree32 [2147483647, 1] =
     Some (Ok32 \<lparr>tree32 = [0, 2147483648, 2147483647, 1, 0, 0, 0, 0],
                 lazy32 = [0, 0, 0, 0, 0, 0, 0, 0], size_n32 = 2\<rparr>) \<and>
   queryRange32 \<lparr>tree32 = [0, 2147483648, 2147483647, 1, 0, 0, 0, 0],
                 lazy32 = [0, 0, 0, 0, 0, 0, 0, 0], size_n32 = 2\<rparr> 0 1 =
     Some (Ok32 (2147483648, \<lparr>tree32 = [0, 2147483648, 2147483647, 1, 0, 0, 0, 0],
                 lazy32 = [0, 0, 0, 0, 0, 0, 0, 0], size_n32 = 2\<rparr>)) \<and>
   sint (2147483648 :: int32) = - 2147483648 \<and>
   sint (2147483647 :: int32) + sint (1 :: int32) = 2147483648"
proof -
  have a: "SegmentTree32 [2147483647, 1] =
     Some (Ok32 \<lparr>tree32 = [0, 2147483648, 2147483647, 1, 0, 0, 0, 0],
                 lazy32 = [0, 0, 0, 0, 0, 0, 0, 0], size_n32 = 2\<rparr>)"
    by code_simp
  have b: "queryRange32 \<lparr>tree32 = [0, 2147483648, 2147483647, 1, 0, 0, 0, 0],
                 lazy32 = [0, 0, 0, 0, 0, 0, 0, 0], size_n32 = 2\<rparr> 0 1 =
     Some (Ok32 (2147483648, \<lparr>tree32 = [0, 2147483648, 2147483647, 1, 0, 0, 0, 0],
                 lazy32 = [0, 0, 0, 0, 0, 0, 0, 0], size_n32 = 2\<rparr>))"
    by code_simp
  have c: "sint (2147483648 :: int32) = - 2147483648" by simp
  have d: "sint (2147483647 :: int32) + sint (1 :: int32) = 2147483648" by simp
  show ?thesis using a b c d by simp
qed

text \<open>
  Claim C5, as the code has it. For a non-empty array \<open>A\<close> of size \<open>N\<close> with
  \<open>4 * N \<le> 2147483647\<close> (the constructor computes \<open>4 * n\<close> in \<open>int\<close>), right after
  the construction \<open>queryRange 0 (N - 1)\<close> returns the sum of all elements of \<open>A\<close> in the
  32-bit arithmetic of the code, which is the sum of the elements whenever that sum is
  an \<open>int\<close>; and \<open>queryRange i i\<close> returns \<open>A[i]\<close> for every \<open>i < N\<close>.
\<close>

theorem build_correct:
  "W \<noteq> [] \<Longrightarrow> 4 * int (length W) \<le> 2147483647 \<Longrightarrow>
   \<exists>s. SegmentTree32 W = Some (Ok32 s) \<and>
       (\<exists>s'. queryRange32 s 0 (int (length W) - 1) = Some (Ok32 (sum_list W, s'))) \<and>
       (\<forall>i<length W. \<exists>s'. queryRange32 s (int i) (int i) = Some (Ok32 (W ! i, s'))) \<and>
       (- 2147483648 \<le> sum_list (map sint W) \<and> sum_list (map sint W) \<le> 2147483647 \<longrightarrow>
          sint (sum_list W) = sum_list (map sint W))"
proof -
  assume ne: "W \<noteq> []" and sz: "4 * int (length W) \<le> 2147483647"
  define A where "A = map sint W"
  have AW: "map word_of_int A = W" by (simp only: A_def map_word_sint)
  have len: "length A = length W" by (simp add: A_def)
  from ne have neA: "A \<noteq> []" by (simp add: A_def)
  from construct_query_int [OF neA] obtain s where s: "SegmentTree A = Some (Ok s)"
    and a: "\<exists>s'. queryRange s 0 (int (length A) - 1) = Some (Ok (sum_list A, s'))"
    and p: "\<forall>i<length A. \<exists>s'. queryRange s (int i) (int i) = Some (Ok (A ! i, s'))"
    by blast
  have c: "SegmentTree32 W = Some (Ok32 (img s))"
    using SegmentTree_sim [of A s] sz s by (simp only: AW len)
  from a obtain s1 where "queryRange s 0 (int (length A) - 1) = Some (Ok (sum_list A, s1))" ..
  from queryRange_sim [OF this]
  have "queryRange32 (img s) 0 (int (length A) - 1) = Some (Ok32 (word_of_int (sum_list A), img s1))" .
  moreover have "word_of_int (sum_list A) = sum_list W"
    unfolding A_def by (rule sum_list_word_sint [symmetric])
  ultimately have q: "queryRange32 (img s) 0 (int (length W) - 1) = Some (Ok32 (sum_list W, img s1))"
    by (simp only: len)
  have pt: "\<exists>s'. queryRange32 (img s) (int i) (int i) = Some (Ok32 (W ! i, s'))"
    if i: "i < length W" for i
  proof -
    from p i len obtain s2 where "queryRange s (int i) (int i) = Some (Ok (A ! i, s2))" by auto
    from queryRange_sim [OF this] have "queryRange32 (img s) (int i) (int i) =
      Some (Ok32 (word_of_int (A ! i), img s2))" .
    moreover have "word_of_int (A ! i) = W ! i" using i by (simp add: A_def)
    ultimately show ?thesis by auto
  qed
  have fit: "sint (sum_list W) = sum_list (map sint W)"
    if "- 2147483648 \<le> sum_list (map sint W) \<and> sum_list (map sint W) \<le> 2147483647"
    using to_int32_id [of "sum_list (map sint W)"] that
    by (simp only: sum_list_word_sint [of W] to_int32_def)
  show ?thesis
  proof (rule exI [of _ "img s"], intro conjI)
    show "SegmentTree32 W = Some (Ok32 (img s))" by (rule c)
    show "\<exists>s'. queryRange32 (img s) 0 (int (length W) - 1) = Some (Ok32 (sum_list W, s'))"
      using q ..
    show "\<forall>i<length W. \<exists>s'. queryRange32 (img s) (int i) (int i) = Some (Ok32 (W ! i, s'))"
      using pt by simp
    show "- 2147483648 \<le> sum_list (map sint W) \<and> sum_list (map sint W) \<le> 2147483647 \<longrightarrow>
          sint (sum_list W) = sum_list (map sint W)"
      by (rule impI) (rule fit)
  qed
qed

theorem build_correct_witness:
  "[1, 2, 3, 4, 5] \<noteq> ([] :: int32 list) \<and> 4 * int (length [1, 2, 3, 4, 5 :: int32]) \<le> 2147483647 \<and>
   (\<exists>s. SegmentTree32 [1, 2, 3, 4, 5] = Some (Ok32 s) \<and>
       (\<exists>s'. queryRange32 s 0 4 = Some (Ok32 (15, s'))) \<and>
       (\<exists>s'. queryRange32 s 2 2 = Some (Ok32 (3, s')))) \<and>
   - 2147483648 \<le> sum_list (map sint [1, 2, 3, 4, 5 :: int32]) \<and>
   sum_list (map sint [1, 2, 3, 4, 5 :: int32]) \<le> 2147483647 \<and>
   sint (sum_list [1, 2, 3, 4, 5 :: int32]) = 15"
proof -
  have h: "[1, 2, 3, 4, 5] \<noteq> ([] :: int32 list)" "4 * int (length [1, 2, 3, 4, 5 :: int32]) \<le> 2147483647"
    by simp_all
  have f: "sum_list (map sint [1, 2, 3, 4, 5 :: int32]) = 15" by simp
  from build_correct [OF h] obtain s where
    s: "SegmentTree32 [1, 2, 3, 4, 5] = Some (Ok32 s)"
    and a: "\<exists>s'. queryRange32 s 0 (int (length [1, 2, 3, 4, 5 :: int32]) - 1) =
                 Some (Ok32 (sum_list [1, 2, 3, 4, 5], s'))"
    and p: "\<forall>i<length [1, 2, 3, 4, 5 :: int32]. \<exists>s'. queryRange32 s (int i) (int i) =
                 Some (Ok32 ([1, 2, 3, 4, 5] ! i, s'))"
    and t: "- 2147483648 \<le> sum_list (map sint [1, 2, 3, 4, 5 :: int32]) \<and>
            sum_list (map sint [1, 2, 3, 4, 5 :: int32]) \<le> 2147483647 \<longrightarrow>
            sint (sum_list [1, 2, 3, 4, 5 :: int32]) = sum_list (map sint [1, 2, 3, 4, 5 :: int32])"
    by blast
  from p [rule_format, of 2] have p2: "\<exists>s'. queryRange32 s 2 2 = Some (Ok32 (3, s'))" by simp
  from a have a2: "\<exists>s'. queryRange32 s 0 4 = Some (Ok32 (15, s'))" by simp
  from t f have "sint (sum_list [1, 2, 3, 4, 5 :: int32]) = 15" by simp
  with s a2 p2 f h show ?thesis by auto
qed

text \<open>
  Claim C6 says that a visit of the update recursion to a node whose range is disjoint
  from the update range leaves both vectors as they were. \<open>update_recursive\<close> calls
  \<open>push\<close> before it compares the ranges. After building from \<open>[1, 2]\<close> and
  \<open>updateRange 0 1 5\<close>, the call \<open>updateRange 1 1 1\<close> leaves the root as it is
  (its pending delta is 0) and visits node 2 with range \<open>[0, 0]\<close>, which lies left of
  \<open>[1, 1]\<close>: the visit changes \<open>tree[2]\<close> from 1 to 6 and \<open>lazy[2]\<close> from 5 to 0.
\<close>

theorem disjoint_visit_counterexample:
  "after [1, 2] [UpdateRange 0 1 5] =
     Some (Ok \<lparr>tree = [0, 13, 1, 2, 0, 0, 0, 0], lazy = [0, 0, 5, 5, 0, 0, 0, 0], size_n = 2\<rparr>) \<and>
   (2, 0, 0) \<in> set (updateRange_calls 2 1 1) \<and>
   push \<lparr>tree = [0, 13, 1, 2, 0, 0, 0, 0], lazy = [0, 0, 5, 5, 0, 0, 0, 0], size_n = 2\<rparr> ROOT_NODE 0 1 =
     Ok \<lparr>tree = [0, 13, 1, 2, 0, 0, 0, 0], lazy = [0, 0, 5, 5, 0, 0, 0, 0], size_n = 2\<rparr> \<and>
   (0::int) < 1 \<and>
   update_recursive \<lparr>tree = [0, 13, 1, 2, 0, 0, 0, 0], lazy = [0, 0, 5, 5, 0, 0, 0, 0], size_n = 2\<rparr>
       2 0 0 1 1 1 =
     Some (Ok \<lparr>tree = [0, 13, 6, 2, 0, 0, 0, 0], lazy = [0, 0, 0, 5, 0, 0, 0, 0], size_n = 2\<rparr>) \<and>
   tree \<lparr>tree = [0, 13, 6, 2, 0, 0, 0, 0], lazy = [0, 0, 0, 5, 0, 0, 0, 0], size_n = 2\<rparr> \<noteq>
   tree \<lparr>tree = [0, 13, 1, 2, 0, 0, 0, 0], lazy = [0, 0, 5, 5, 0, 0, 0, 0], size_n = 2\<rparr> \<and>
   lazy \<lparr>tree = [0, 13, 6, 2, 0, 0, 0, 0], lazy = [0, 0, 0, 5, 0, 0, 0, 0], size_n = 2\<rparr> \<noteq>
   lazy \<lparr>tree = [0, 13, 1, 2, 0, 0, 0, 0], lazy = [0, 0, 5, 5, 0, 0, 0, 0], size_n = 2\<rparr>"
proof -
  have a: "after [1, 2] [UpdateRange 0 1 5] =
     Some (Ok \<lparr>tree = [0, 13, 1, 2, 0, 0, 0, 0], lazy = [0, 0, 5, 5, 0, 0, 0, 0], size_n = 2\<rparr>)"
    by code_simp
  have c: "(2, 0, 0) \<in> set (updateRange_calls 2 1 1)" by code_simp
  have p: "push \<lparr>tree = [0, 13, 1, 2, 0, 0, 0, 0], lazy = [0, 0, 5, 5, 0, 0, 0, 0], size_n = 2\<rparr> ROOT_NODE 0 1 =
     Ok \<lparr>tree = [0, 13, 1, 2, 0, 0, 0, 0], lazy = [0, 0, 5, 5, 0, 0, 0, 0], size_n = 2\<rparr>"
    by code_simp
  have u: "update_recursive \<lparr>tree = [0, 13, 1, 2, 0, 0, 0, 0], lazy = [0, 0, 5, 5, 0, 0, 0, 0], size_n = 2\<rparr>
       2 0 0 1 1 1 =
     Some (Ok \<lparr>tree = [0, 13, 6, 2, 0, 0, 0, 0], lazy = [0, 0, 0, 5, 0, 0, 0, 0], size_n = 2\<rparr>)"
    by code_simp
  show ?thesis using a c p u by simp
qed

text \<open>
  Claim C6, as the code has it. A visit of the update recursion to a node whose range is
  disjoint from the update range does the push-down of that node and nothing else: the
  result is the state \<open>push\<close> returns, and it is the state before the visit when the
  node's pending delta is 0.
\<close>

theorem disjoint_visit_only_pushes:
  "start > end \<or> start > r \<or> end < l \<Longrightarrow>
   update_recursive s node start end l r val = Some (push s node start end) \<and>
   (lazy_get s node = Ok 0 \<longrightarrow> update_recursive s node start end l r val = Some (Ok s))"
proof -
  assume d: "start > end \<or> start > r \<or> end < l"
  have u: "update_recursive s node start end l r val = Some (push s node start end)"
    using d by (subst update_recursive.simps) (cases "push s node start end"; simp)
  moreover have "push s node start end = Ok s" if "lazy_get s node = Ok 0"
    using that by (simp add: push_def)
  ultimately show ?thesis by simp
qed

theorem disjoint_visit_only_pushes_witness:
  "(0::int) < 1 \<and>
   lazy_get \<lparr>tree = [0, 3, 1, 2, 0, 0, 0, 0], lazy = [0, 0, 0, 0, 0, 0, 0, 0], size_n = 2\<rparr> 2 = Ok 0 \<and>
   update_recursive \<lparr>tree = [0, 3, 1, 2, 0, 0, 0, 0], lazy = [0, 0, 0, 0, 0, 0, 0, 0], size_n = 2\<rparr>
       2 0 0 1 1 7 =
     Some (Ok \<lparr>tree = [0, 3, 1, 2, 0, 0, 0, 0], lazy = [0, 0, 0, 0, 0, 0, 0, 0], size_n = 2\<rparr>)"
proof -
  have g: "lazy_get \<lparr>tree = [0, 3, 1, 2, 0, 0, 0, 0], lazy = [0, 0, 0, 0, 0, 0, 0, 0], size_n = 2\<rparr> 2 = Ok 0"
    by (simp add: lazy_get_def)
  have d: "(0::int) > 0 \<or> (0::int) > 1 \<or> (0::int) < 1" by simp
  from disjoint_visit_only_pushes [OF d, where node = 2 and val = 7 and
      s = "\<lparr>tree = [0, 3, 1, 2, 0, 0, 0, 0], lazy = [0, 0, 0, 0, 0, 0, 0, 0], size_n = 2\<rparr>"] g
  have "update_recursive \<lparr>tree = [0, 3, 1, 2, 0, 0, 0, 0], lazy = [0, 0, 0, 0, 0, 0, 0, 0], size_n = 2\<rparr>
       2 0 0 1 1 7 =
     Some (Ok \<lparr>tree = [0, 3, 1, 2, 0, 0, 0, 0], lazy = [0, 0, 0, 0, 0, 0, 0, 0], size_n = 2\<rparr>)"
    by blast
  with g show ?thesis by simp
qed

text \<open>
  Claim C7 says that for every \<open>N \<ge> 1\<close> the \<open>4 * N\<close> slots allocated by the constructor
  are never indexed out of bounds. The constructor computes \<open>4 * n\<close> in \<open>int\<close>: for
  \<open>N = 2 ^ 30\<close> the product wraps around to \<open>0\<close>, both vectors are resized to no
  element, and the first write of \<open>build_recursive\<close> is out of bounds.
\<close>

theorem allocation_overflow_counterexample:
  "to_int32 (int (length (replicate (2 ^ 30) (0 :: int32)))) = 2 ^ 30 \<and>
   to_int32 (4 * 2 ^ 30) = 0 \<and>
   SegmentTree32 (replicate (2 ^ 30) 0) = Some OutOfBounds32"
proof -
  have n: "to_int32 (int (length (replicate (2 ^ 30) (0 :: int32)))) = 2 ^ 30"
    by (simp add: to_int32_def int_word_sint)
  have k: "to_int32 (4 * 2 ^ 30) = 0" by (simp add: to_int32_def int_word_sint)
  have m: "to_int32 (2 ^ 30 - 1) = 2 ^ 30 - 1" by (simp add: to_int32_def int_word_sint)
  have "build_recursive32 (replicate (2 ^ 30) 0) \<lparr>tree32 = [], lazy32 = [], size_n32 = 2 ^ 30\<rparr>
          ROOT_NODE 0 (2 ^ 30 - 1) = Some OutOfBounds32"
    by (rule build_empty_tree) simp_all
  then have "SegmentTree32 (replicate (2 ^ 30) 0) = Some OutOfBounds32"
    unfolding SegmentTree32_def Let_def n k m by simp
  with n k show ?thesis by simp
qed

text \<open>
  Claim C7, as the code has it. For an initial array of size \<open>N \<ge> 1\<close> with
  \<open>4 * N \<le> 2147483647\<close>, so that the \<open>4 * n\<close> of the constructor does not overflow, and
  every sequence of calls, no access to \<open>tree\<close> or \<open>lazy\<close> during the construction,
  the updates and the queries is out of bounds (the run ends in \<open>Ok32\<close>, and both
  vectors keep the \<open>4 * N\<close> slots of the constructor); every node of the tree has a
  position in \<open>[1, 4 * N)\<close>; and every call of the two traversals is at such a position,
  as are the two children it touches when \<open>start \<noteq> end\<close>.
\<close>

theorem accesses_in_bounds:
  "W \<noteq> [] \<Longrightarrow> 4 * int (length W) \<le> 2147483647 \<Longrightarrow>
   (\<exists>s. after32 W ops = Some (Ok32 s) \<and> length (tree32 s) = 4 * length W \<and>
        length (lazy32 s) = 4 * length W) \<and>
   (\<forall>node start end. node_range (int (length W)) node start end \<longrightarrow>
       1 \<le> node \<and> node < 4 * length W) \<and>
   (\<forall>(node, start, end) \<in> set (updateRange_calls (int (length W)) l r) \<union>
                            set (queryRange_calls (int (length W)) l r).
       1 \<le> node \<and> node < 4 * length W \<and> (start \<noteq> end \<longrightarrow> 2 * node + 1 < 4 * length W))"
proof -
  assume ne: "W \<noteq> []" and sz: "4 * int (length W) \<le> 2147483647"
  define A where "A = map sint W"
  have len: "length A = length W" by (simp add: A_def)
  from ne have neA: "A \<noteq> []" by (simp add: A_def)
  note ideal = positions_in_bounds_int [OF neA, of "map op_of32 ops" l r, unfolded len]
  from ideal obtain s where s: "after A (map op_of32 ops) = Some (Ok s)"
    "length (tree s) = 4 * length W" "length (lazy s) = 4 * length W" by blast
  have "after32 W ops = Some (Ok32 (img s))"
    using after_sim [OF sz] s(1) by (simp only: A_def)
  moreover have "length (tree32 (img s)) = 4 * length W" "length (lazy32 (img s)) = 4 * length W"
    using s(2,3) by simp_all
  ultimately have e: "\<exists>s. after32 W ops = Some (Ok32 s) \<and> length (tree32 s) = 4 * length W \<and>
        length (lazy32 s) = 4 * length W" by blast
  show ?thesis
    by (intro conjI e ideal [THEN conjunct2, THEN conjunct1] ideal [THEN conjunct2, THEN conjunct2])
qed

theorem accesses_in_bounds_witness:
  "[1, 2, 3] \<noteq> ([] :: int32 list) \<and> 4 * int (length [1, 2, 3 :: int32]) \<le> 2147483647 \<and>
   node_range (int (length [1, 2, 3 :: int32])) 5 1 1 \<and>
   (5::nat) < 4 * length [1, 2, 3 :: int32] \<and>
   (2, 0, 1) \<in> set (updateRange_calls (int (length [1, 2, 3 :: int32])) 0 1) \<union>
               set (queryRange_calls (int (length [1, 2, 3 :: int32])) 0 1) \<and>
   (0::int) \<noteq> 1 \<and> 2 * (2::nat) + 1 < 4 * length [1, 2, 3 :: int32] \<and>
   (\<exists>s. after32 [1, 2, 3] [UpdateRange32 0 1 5, QueryRange32 1 2] = Some (Ok32 s) \<and>
        length (tree32 s) = 12 \<and> length (lazy32 s) = 12)"
proof -
  have h: "[1, 2, 3] \<noteq> ([] :: int32 list)" "4 * int (length [1, 2, 3 :: int32]) \<le> 2147483647"
    by simp_all
  have c: "(2, 0, 1) \<in> set (updateRange_calls (int (length [1, 2, 3 :: int32])) 0 1) \<union>
               set (queryRange_calls (int (length [1, 2, 3 :: int32])) 0 1)"
    by code_simp
  have r0: "node_range 3 ROOT_NODE 0 (3 - 1)" by (rule node_range.root) simp
  have r1: "node_range 3 (2 * ROOT_NODE) 0 (midpoint 0 (3 - 1))"
    by (rule node_range.left [OF r0]) simp
  then have r1': "node_range 3 2 0 1"
    by (simp add: ROOT_NODE_def midpoint_def signed_divide_int_def)
  have "node_range 3 (2 * 2 + 1) (midpoint 0 1 + 1) 1"
    by (rule node_range.right [OF r1']) simp
  then have r: "node_range (int (length [1, 2, 3 :: int32])) 5 1 1"
    by (simp add: midpoint_def signed_divide_int_def)
  from accesses_in_bounds [OF h, of "[UpdateRange32 0 1 5, QueryRange32 1 2]" 0 1] r c h
  show ?thesis by auto
qed

text \<open>
  Claim C8. Every call of \<open>update_recursive\<close> and \<open>query_recursive\<close> made through
  \<open>updateRange\<close> and \<open>queryRange\<close>, the top-level call as well as the recursive ones,
  has \<open>start \<le> end\<close>: the disjunct \<open>start > end\<close> of the guard is never true.
\<close>

theorem guard_start_gt_end_never_true:
  "\<forall>(node, start, end) \<in> set (updateRange_calls n l r) \<union> set (queryRange_calls n l r).
     start \<le> end"
proof -
  have "fst (snd c) \<le> snd (snd c)"
    if "c \<in> set (updateRange_calls n l r) \<union> set (queryRange_calls n l r)" for c
  proof -
    from that have v: "\<not> (n = 0 \<or> l < 0 \<or> r \<ge> n \<or> l > r)"
      by (auto simp: updateRange_calls_def queryRange_calls_def split: if_splits)
    then have n: "0 \<le> n - 1" by linarith
    from that v have "c \<in> set (update_calls ROOT_NODE 0 (n - 1) l r) \<or>
                      c \<in> set (query_calls ROOT_NODE 0 (n - 1) l r)"
      by (auto simp: updateRange_calls_def queryRange_calls_def)
    then show ?thesis using update_calls_le [OF n] query_calls_le [OF n] by blast
  qed
  then show ?thesis by fastforce
qed

theorem guard_start_gt_end_never_true_witness:
  "(3, 3, 4) \<in> set (updateRange_calls 5 1 3) \<union> set (queryRange_calls 5 1 3) \<and> (3::int) \<le> 4"
proof -
  have m: "(3, 3, 4) \<in> set (updateRange_calls 5 1 3) \<union> set (queryRange_calls 5 1 3)"
    by code_simp
  with guard_start_gt_end_never_true [of 5 1 3] show ?thesis by auto
qed

text \<open>
  Claim C9. \<open>queryRange\<close> cannot be observed to change anything: after any calls
  \<open>ops\<close>, whether or not a \<open>queryRange l r\<close> is made next, every later query, after any
  further calls \<open>rest\<close>, returns the same value (with \<open>a = b\<close>: every index holds the
  same value).
\<close>

theorem queryRange_observationally_pure:
  "\<exists>s1 s2 v t1 t2.
     after A (ops @ rest) = Some (Ok s1) \<and>
     after A (ops @ QueryRange l r # rest) = Some (Ok s2) \<and>
     queryRange s1 a b = Some (Ok (v, t1)) \<and> queryRange s2 a b = Some (Ok (v, t2))"
proof -
  from after_spec [of A "ops @ rest"] obtain s1 where s1: "after A (ops @ rest) = Some (Ok s1)"
    "state_ok s1" "size_n s1 = int (length A)" "contents s1 = mirror A (ops @ rest)" by blast
  from after_spec [of A "ops @ QueryRange l r # rest"] obtain s2 where
    s2: "after A (ops @ QueryRange l r # rest) = Some (Ok s2)"
    "state_ok s2" "size_n s2 = int (length A)" "contents s2 = mirror A (ops @ QueryRange l r # rest)"
    by blast
  have "contents s2 = contents s1" by (simp add: s1 s2 mirror_append)
  then show ?thesis
    using queryRange_spec [OF s1(2), of a b] queryRange_spec [OF s2(2), of a b] s1 s2
    by auto
qed

theorem queryRange_observationally_pure_witness:
  "\<exists>s1 s2 t1 t2.
     after [1, 2, 3] ([UpdateRange 0 1 5] @ [UpdateRange 1 2 1]) = Some (Ok s1) \<and>
     after [1, 2, 3] ([UpdateRange 0 1 5] @ QueryRange 0 0 # [UpdateRange 1 2 1]) = Some (Ok s2) \<and>
     queryRange s1 0 2 = Some (Ok (18, t1)) \<and> queryRange s2 0 2 = Some (Ok (18, t2))"
proof -
  from queryRange_observationally_pure [of "[1, 2, 3]" "[UpdateRange 0 1 5]" "[UpdateRange 1 2 1]" 0 0 0 2]
  obtain s1 s2 v t1 t2 where
    a1: "after [1, 2, 3] ([UpdateRange 0 1 5] @ [UpdateRange 1 2 1]) = Some (Ok s1)"
    and a2: "after [1, 2, 3] ([UpdateRange 0 1 5] @ QueryRange 0 0 # [UpdateRange 1 2 1]) = Some (Ok s2)"
    and q1: "queryRange s1 0 2 = Some (Ok (v, t1))" and q2: "queryRange s2 0 2 = Some (Ok (v, t2))"
    by blast
  have "v = range_sum (mirror [1, 2, 3] ([UpdateRange 0 1 5] @ [UpdateRange 1 2 1])) 0 2"
    by (rule query_value_is_mirror_sum [OF a1 _ _ _ q1]) simp_all
  also have "\<dots> = 18" by code_simp
  finally show ?thesis using a1 a2 q1 q2 by blast
qed

text \<open>
  Claim C10. Every call of \<open>build_recursive\<close>, \<open>update_recursive\<close> and
  \<open>query_recursive\<close> that comes from the public interface returns. Here: for every
  state, node and update or query range, \<open>build_recursive\<close> returns whenever
  \<open>start \<le> end\<close>, \<open>update_recursive\<close> and \<open>query_recursive\<close> return for all
  arguments (with \<open>start > end\<close> the guard ends the call), and so the constructor,
  \<open>updateRange\<close> and \<open>queryRange\<close> always return. Each proof is by induction on
  \<open>end - start\<close>, which the midpoint split makes strictly smaller in both recursive calls.
\<close>

theorem recursions_terminate:
  "(start \<le> end \<longrightarrow> (\<exists>res. build_recursive arr s node start end = Some res)) \<and>
   (\<exists>res. update_recursive s node start end l r val = Some res) \<and>
   (\<exists>res. query_recursive s node start end l r = Some res) \<and>
   (\<exists>res. SegmentTree arr = Some res) \<and>
   (\<exists>res. updateRange s l r val = Some res) \<and>
   (\<exists>res. queryRange s l r = Some res)"
proof -
  have "\<exists>res. SegmentTree arr = Some res"
    using build_terminates [of 0 "int (length arr) - 1" arr]
    by (cases arr) (simp_all add: SegmentTree_def)
  then show ?thesis
    using build_terminates update_terminates query_terminates
    by (simp add: updateRange_def queryRange_def)
qed

theorem recursions_terminate_witness:
  "(0::int) \<le> 2 \<and>
   (\<exists>res. build_recursive [4, 5, 6] \<lparr>tree = replicate 12 0, lazy = replicate 12 0, size_n = 3\<rparr>
             1 0 2 = Some res)"
  using recursions_terminate
    [of 0 2 "[4, 5, 6]" "\<lparr>tree = replicate 12 0, lazy = replicate 12 0, size_n = 3\<rparr>" 1]
  by simp

end
